theory Spec2Isabelle
  imports Complex_Main
begin

section \<open>Errors\<close>

text \<open>
  Modelled from the spec: the error classes (\<^verbatim>\<open>errors/error-400-bad-request\<close> and its
  siblings) are imported by the services but are not among the sources. Their
  status codes follow the taxonomy of the specification, section 7: \<open>InvalidPath\<close> is
  400-class, \<open>NotFound\<close> 404, \<open>Conflict\<close> 409, \<open>UnprocessableContract\<close> 422 and
  \<open>InternalFailure\<close> 500. \<open>Thrown\<close> is any other exception (a \<^verbatim>\<open>TypeError\<close>, a
  failure of the Redis client, of the database driver or of a library); it
  carries the numeric \<^verbatim>\<open>code\<close> property when the exception has one.
\<close>

datatype error =
    Error400BadRequest string
  | Error404NotFound string
  | Error409Conflict string
  | Error422UnprocessableEntity string
  | Error500InternalServer string
  | Thrown "int option" string

fun code :: "error \<Rightarrow> int option" where
  "code (Error400BadRequest _) = Some 400"
| "code (Error404NotFound _) = Some 404"
| "code (Error409Conflict _) = Some 409"
| "code (Error422UnprocessableEntity _) = Some 422"
| "code (Error500InternalServer _) = Some 500"
| "code (Thrown c _) = c"

text \<open>The text a template literal \<^verbatim>\<open>${err}\<close> gives for an error.\<close>

fun err_text :: "error \<Rightarrow> string" where
  "err_text (Error400BadRequest m) = m"
| "err_text (Error404NotFound m) = m"
| "err_text (Error409Conflict m) = m"
| "err_text (Error422UnprocessableEntity m) = m"
| "err_text (Error500InternalServer m) = m"
| "err_text (Thrown _ m) = m"

text \<open>
  \<^verbatim>\<open>err?.code < 500\<close>: a missing code is \<^verbatim>\<open>undefined\<close>, and \<^verbatim>\<open>undefined < 500\<close> is
  false.
\<close>

definition code_below_500 :: "error \<Rightarrow> bool" where
  "code_below_500 err = (case code err of None \<Rightarrow> False | Some c \<Rightarrow> c < 500)"

text \<open>Sequencing of fallible steps: the first exception ends the block.\<close>

definition bind_err :: "error + 'a \<Rightarrow> ('a \<Rightarrow> error + 'b) \<Rightarrow> error + 'b" where
  "bind_err r f = (case r of Inl e \<Rightarrow> Inl e | Inr x \<Rightarrow> f x)"


section \<open>Trace logging: \<^verbatim>\<open>LogRequestService\<close>\<close>

type_synonym MetloContext = string

type_synonym PairObject = "string \<times> string"

text \<open>
  \<^verbatim>\<open>TraceParams\<close>: every field is read through an optional chain
  (\<^verbatim>\<open>traceParams?.request?.url?.path\<close>), so each one may be missing.
\<close>

record TraceParams =
  tp_path :: "string option"
  tp_method :: "string option"
  tp_host :: "string option"
  tp_parameters :: "PairObject list option"
  tp_requestHeaders :: "PairObject list option"
  tp_requestBody :: "string option"
  tp_responseHeaders :: "PairObject list option"
  tp_responseBody :: "string option"
  tp_responseStatus :: "int option"
  tp_meta :: "string option"

record QueuedApiTrace =
  q_path :: string
  q_method :: "string option"
  q_host :: "string option"
  q_requestParameters :: "PairObject list"
  q_requestHeaders :: "PairObject list"
  q_requestBody :: "string option"
  q_responseStatus :: "int option"
  q_responseHeaders :: "PairObject list"
  q_responseBody :: "string option"
  q_meta :: string
  q_createdAt :: nat
  q_sessionMeta :: string

text \<open>The result object of \<^verbatim>\<open>getValidPath\<close> (\<^verbatim>\<open>utils\<close>, not among the sources).\<close>

record ValidPath =
  isValid :: bool
  vp_path :: string
  errMsg :: string

text \<open>
  The functions of the \<^verbatim>\<open>utils\<close> modules (\<^verbatim>\<open>utils\<close> and \<^verbatim>\<open>@common/utils\<close>) are
  imported by the services but are not among the sources; they are taken as
  parameters. \<^verbatim>\<open>getValidPath\<close> has an optional second argument \<^verbatim>\<open>numTokens\<close>;
  \<open>numberParamsOf\<close> is the count that \<^verbatim>\<open>addNumberParams\<close> and
  \<^verbatim>\<open>endpointAddNumberParams\<close> store in \<^verbatim>\<open>numberParams\<close>; \<open>regexMatch text pattern\<close> is
  the regular-expression operator \<^verbatim>\<open>~\<close> of the database.
\<close>

record Utils =
  getPathTokens :: "string \<Rightarrow> string list"
  getValidPath :: "string option \<Rightarrow> nat option \<Rightarrow> ValidPath"
  getPathRegex :: "string \<Rightarrow> string"
  isParameter :: "string \<Rightarrow> bool"
  numberParamsOf :: "string \<Rightarrow> nat"
  regexMatch :: "string \<Rightarrow> string \<Rightarrow> bool"

text \<open>
  The other collaborators of \<^verbatim>\<open>logRequest\<close>: the two services that rewrite the
  trace object in place (each may throw), and the clock behind \<^verbatim>\<open>new Date()\<close>.
\<close>

record LogEnv =
  redactBlockedFields :: "MetloContext \<Rightarrow> QueuedApiTrace \<Rightarrow> error + QueuedApiTrace"
  setSessionMetadata :: "MetloContext \<Rightarrow> QueuedApiTrace \<Rightarrow> error + QueuedApiTrace"
  now :: nat

text \<open>
  The Redis client: the list stored under \<^verbatim>\<open>TRACES_QUEUE\<close>, and for each of the two
  commands the exception it throws when the command cannot be carried out.
\<close>

record Redis =
  TRACES_QUEUE :: "(MetloContext \<times> QueuedApiTrace) list"
  llen_fault :: "error option"
  rpush_fault :: "error option"

definition llen :: "Redis \<Rightarrow> error + nat" where
  "llen r = (case llen_fault r of Some e \<Rightarrow> Inl e | None \<Rightarrow> Inr (length (TRACES_QUEUE r)))"

definition rpush :: "Redis \<Rightarrow> MetloContext \<times> QueuedApiTrace \<Rightarrow> error + Redis" where
  "rpush r item =
     (case rpush_fault r of
        Some e \<Rightarrow> Inl e
      | None \<Rightarrow> Inr (r\<lparr>TRACES_QUEUE := TRACES_QUEUE r @ [item]\<rparr>))"

definition or_undefined :: "string option \<Rightarrow> string" where
  "or_undefined s = (case s of None \<Rightarrow> ''undefined'' | Some t \<Rightarrow> t)"

definition or_empty :: "'a list option \<Rightarrow> 'a list" where
  "or_empty xs = (case xs of None \<Rightarrow> [] | Some ys \<Rightarrow> ys)"

definition apiTraceObj :: "LogEnv \<Rightarrow> TraceParams \<Rightarrow> string \<Rightarrow> QueuedApiTrace" where
  "apiTraceObj env traceParams path =
     \<lparr> q_path = path,
       q_method = tp_method traceParams,
       q_host = tp_host traceParams,
       q_requestParameters = or_empty (tp_parameters traceParams),
       q_requestHeaders = or_empty (tp_requestHeaders traceParams),
       q_requestBody = tp_requestBody traceParams,
       q_responseStatus = tp_responseStatus traceParams,
       q_responseHeaders = or_empty (tp_responseHeaders traceParams),
       q_responseBody = tp_responseBody traceParams,
       q_meta = (case tp_meta traceParams of None \<Rightarrow> ''{}'' | Some m \<Rightarrow> m),
       q_createdAt = now env,
       q_sessionMeta = ''{}'' \<rparr>"

text \<open>
  The body of the \<^verbatim>\<open>try\<close> block of \<^verbatim>\<open>logRequest\<close>. The inner \<^verbatim>\<open>try\<close> around
  \<^verbatim>\<open>llen\<close> has an empty \<^verbatim>\<open>catch\<close>, so a failing length query leaves
  \<^verbatim>\<open>queueLength\<close> at 0.
\<close>

definition logRequest_try ::
  "Utils \<Rightarrow> LogEnv \<Rightarrow> MetloContext \<Rightarrow> TraceParams \<Rightarrow> Redis \<Rightarrow> (error + unit) \<times> Redis" where
  "logRequest_try u env ctx traceParams r =
     (let queueLength = (case llen r of Inl _ \<Rightarrow> 0 | Inr n \<Rightarrow> n) in
      if queueLength > 1000 then (Inr (), r)
      else
        let validPath = getValidPath u (tp_path traceParams) None in
        if \<not> isValid validPath then
          (Inl (Error400BadRequest
             (''Invalid path '' @ or_undefined (tp_path traceParams) @ '': '' @ errMsg validPath)), r)
        else
          (case redactBlockedFields env ctx (apiTraceObj env traceParams (vp_path validPath)) of
             Inl e \<Rightarrow> (Inl e, r)
           | Inr obj1 \<Rightarrow>
              (case setSessionMetadata env ctx obj1 of
                 Inl e \<Rightarrow> (Inl e, r)
               | Inr obj2 \<Rightarrow>
                  (case rpush r (ctx, obj2) of
                     Inl e \<Rightarrow> (Inl e, r)
                   | Inr r' \<Rightarrow> (Inr (), r')))))"

text \<open>
  \<^verbatim>\<open>logRequest\<close>: the \<^verbatim>\<open>catch\<close> rethrows an error whose code is below 500 and
  wraps every other one in \<^verbatim>\<open>Error500InternalServer\<close>.
\<close>

definition logRequest ::
  "Utils \<Rightarrow> LogEnv \<Rightarrow> MetloContext \<Rightarrow> TraceParams \<Rightarrow> Redis \<Rightarrow> (error + unit) \<times> Redis" where
  "logRequest u env ctx traceParams r =
     (case logRequest_try u env ctx traceParams r of
        (Inl err, r') \<Rightarrow>
          if code_below_500 err then (Inl err, r')
          else (Inl (Error500InternalServer (err_text err)), r')
      | (Inr ok, r') \<Rightarrow> (Inr ok, r'))"

text \<open>\<^verbatim>\<open>logRequestBatch\<close>: the \<^verbatim>\<open>for\<close> loop awaits each call; an exception leaves it.\<close>

fun logRequestBatch ::
  "Utils \<Rightarrow> LogEnv \<Rightarrow> MetloContext \<Rightarrow> TraceParams list \<Rightarrow> Redis \<Rightarrow> (error + unit) \<times> Redis" where
  "logRequestBatch u env ctx [] r = (Inr (), r)"
| "logRequestBatch u env ctx (t # ts) r =
     (case logRequest u env ctx t r of
        (Inl err, r') \<Rightarrow> (Inl err, r')
      | (Inr _, r') \<Rightarrow> logRequestBatch u env ctx ts r')"


section \<open>Data model of the spec service\<close>

text \<open>
  The entity classes (\<^verbatim>\<open>models\<close>) and enums (\<^verbatim>\<open>@common/enums\<close>) are not among the
  sources; the records below hold the fields the services read and write.
  Timestamps are integers. A field that may be \<^verbatim>\<open>undefined\<close> or \<^verbatim>\<open>null\<close> is an option.
\<close>

datatype JSONValue =
    JNull
  | JBool bool
  | JNum int
  | JStr string
  | JArr "JSONValue list"
  | JObj "(string \<times> JSONValue) list"

datatype SpecExtension = JSON | YAML

text \<open>
  Modelled from the spec: the enum \<^verbatim>\<open>RiskScore\<close> and the table \<^verbatim>\<open>RISK_SCORE_ORDER\<close>
  (\<^verbatim>\<open>~/constants\<close>) are not among the sources. The specification orders the scores
  \<open>NONE < LOW < MEDIUM < HIGH < CRITICAL\<close>.
\<close>

datatype RiskScore = NONE | LOW | MEDIUM | HIGH | CRITICAL

fun RISK_SCORE_ORDER :: "RiskScore \<Rightarrow> nat" where
  "RISK_SCORE_ORDER NONE = 0"
| "RISK_SCORE_ORDER LOW = 1"
| "RISK_SCORE_ORDER MEDIUM = 2"
| "RISK_SCORE_ORDER HIGH = 3"
| "RISK_SCORE_ORDER CRITICAL = 4"

datatype AlertType = NEW_ENDPOINT | OPEN_API_SPEC_DIFF | OTHER_ALERT string

record OpenApiSpec =
  spec_name :: string
  spec_spec :: string
  spec_isAutoGenerated :: bool
  spec_extension :: SpecExtension
  spec_createdAt :: int
  spec_updatedAt :: int
  spec_specUpdatedAt :: int
  spec_hosts :: "string list"

text \<open>
  \<open>ep_openapiSpec\<close> is the relation object: it is filled when an endpoint is loaded
  with \<^verbatim>\<open>relations: { openapiSpec: true }\<close> or assigned in memory; the stored row
  holds the name only.
\<close>

record ApiEndpoint =
  ep_uuid :: string
  ep_path :: string
  ep_pathRegex :: string
  ep_method :: string
  ep_host :: string
  ep_numberParams :: nat
  ep_openapiSpecName :: "string option"
  ep_openapiSpec :: "OpenApiSpec option"
  ep_riskScore :: "RiskScore option"
  ep_firstDetected :: "int option"
  ep_lastActive :: "int option"

record ApiTrace =
  tr_uuid :: string
  tr_path :: string
  tr_apiEndpointUuid :: string
  tr_createdAt :: int
  tr_requestHeaders :: "PairObject list"
  tr_requestParameters :: "PairObject list"
  tr_requestBody :: string
  tr_responseStatus :: int
  tr_responseHeaders :: "PairObject list"
  tr_responseBody :: string

record Alert =
  al_uuid :: string
  al_type :: AlertType
  al_apiEndpointUuid :: string
  al_description :: string

record DataField =
  df_uuid :: string
  df_dataPath :: string
  df_apiEndpointUuid :: string

record AggregateTraceDataHourly =
  ag_apiEndpointUuid :: string
  ag_hour :: int
  ag_numCalls :: nat

text \<open>The tables of the database.\<close>

record DB =
  db_specs :: "OpenApiSpec list"
  db_endpoints :: "ApiEndpoint list"
  db_traces :: "ApiTrace list"
  db_dataFields :: "DataField list"
  db_alerts :: "Alert list"
  db_aggregates :: "AggregateTraceDataHourly list"


section \<open>Diff of a trace against the declared spec: \<^verbatim>\<open>findOpenApiSpecDiff\<close>\<close>

type_synonym AjvError = string

record SpecValue =
  sv_path :: "string list"
  sv_value :: JSONValue

type_synonym ErrorItems = "(string \<times> string list) list"

text \<open>The request object handed to the request validator.\<close>

record TraceRequest =
  rq_headers :: "(string \<times> string) list"
  rq_body :: JSONValue
  rq_query :: "(string \<times> JSONValue) list"
  rq_params :: "(string \<times> JSONValue) list"

text \<open>
  Everything \<^verbatim>\<open>findOpenApiSpecDiff\<close> calls outside the sources (the repository,
  the block-fields service, the YAML and Swagger parsers, the two validators, the
  helpers of \<^verbatim>\<open>./utils\<close> and the alert service) is a parameter, and each call may
  throw. \<open>pathLookup\<close> is the evaluation of
  \<^verbatim>\<open>parsedSpec.paths?.[endpoint.path]?.[endpoint.method.toLowerCase()]\<close>.
\<close>

record DiffEnv =
  findOneBy :: "string option \<Rightarrow> error + OpenApiSpec option"
  getBlockFieldsEntry :: "ApiTrace \<Rightarrow> error + string list option"
  yaml_load :: "string \<Rightarrow> error + JSONValue"
  dereference :: "JSONValue \<Rightarrow> error + JSONValue"
  pathLookup :: "JSONValue \<Rightarrow> ApiEndpoint \<Rightarrow> error + JSONValue option"
  getSpecRequestParameters :: "JSONValue \<Rightarrow> ApiEndpoint \<Rightarrow> error + SpecValue option"
  getSpecRequestBody :: "JSONValue \<Rightarrow> ApiEndpoint \<Rightarrow> error + SpecValue option"
  getSpecResponses :: "JSONValue \<Rightarrow> ApiEndpoint \<Rightarrow> error + SpecValue option"
  parsedJsonNonNull :: "string \<Rightarrow> bool \<Rightarrow> error + JSONValue"
  parsePathParameter :: "string option \<Rightarrow> error + JSONValue"
  newRequestValidator :: "JSONValue option \<Rightarrow> JSONValue option \<Rightarrow> JSONValue \<Rightarrow> error + unit"
  validateRequest ::
    "JSONValue option \<Rightarrow> JSONValue option \<Rightarrow> JSONValue \<Rightarrow> TraceRequest \<Rightarrow> error + AjvError list"
  newResponseValidator :: "JSONValue \<Rightarrow> JSONValue option \<Rightarrow> error + unit"
  validateResponse ::
    "JSONValue \<Rightarrow> JSONValue option \<Rightarrow> int \<Rightarrow> JSONValue \<Rightarrow> (string \<times> string) list
       \<Rightarrow> error + AjvError list"
  generateAlertMessageFromReqErrors ::
    "AjvError list \<Rightarrow> string list \<Rightarrow> string list \<Rightarrow> JSONValue \<Rightarrow> string list \<Rightarrow> error + ErrorItems"
  generateAlertMessageFromRespErrors ::
    "AjvError list \<Rightarrow> string list option \<Rightarrow> string list \<Rightarrow> error + ErrorItems"
  createSpecDiffAlerts ::
    "ErrorItems \<Rightarrow> string \<Rightarrow> ApiTrace \<Rightarrow> OpenApiSpec \<Rightarrow> error + Alert list"

text \<open>
  Reading a property of a value that may be \<^verbatim>\<open>undefined\<close>: \<^verbatim>\<open>x.path\<close> throws a
  \<^verbatim>\<open>TypeError\<close> on \<^verbatim>\<open>undefined\<close>, \<^verbatim>\<open>x?.path\<close> gives \<^verbatim>\<open>undefined\<close>.
\<close>

definition property_of :: "'a option \<Rightarrow> ('a \<Rightarrow> 'b) \<Rightarrow> error + 'b" where
  "property_of x f =
     (case x of
        None \<Rightarrow> Inl (Thrown None ''TypeError: Cannot read properties of undefined'')
      | Some v \<Rightarrow> Inr (f v))"

text \<open>Assignment to a property of an object whose keys keep their insertion order.\<close>

fun assign :: "(string \<times> 'v) list \<Rightarrow> string \<Rightarrow> 'v \<Rightarrow> (string \<times> 'v) list" where
  "assign [] k v = [(k, v)]"
| "assign ((k', v') # kvs) k v =
     (if k' = k then (k, v) # kvs else (k', v') # assign kvs k v)"

text \<open>\<^verbatim>\<open>delete obj[k]\<close>.\<close>

definition delete_key :: "(string \<times> 'v) list \<Rightarrow> string \<Rightarrow> (string \<times> 'v) list" where
  "delete_key kvs k = filter (\<lambda>kv. fst kv \<noteq> k) kvs"

text \<open>\<^verbatim>\<open>s.slice(1, -1)\<close>.\<close>

definition slice_1_m1 :: "string \<Rightarrow> string" where
  "slice_1_m1 s = butlast (tl s)"

text \<open>
  The loop that fills \<^verbatim>\<open>pathParams\<close>: position \<open>i\<close> of the endpoint's tokens against
  position \<open>i\<close> of the trace's tokens, which is \<^verbatim>\<open>undefined\<close> when the trace path is
  shorter.
\<close>

fun pathParamsLoop ::
  "Utils \<Rightarrow> DiffEnv \<Rightarrow> string list \<Rightarrow> string list \<Rightarrow> (string \<times> JSONValue) list
     \<Rightarrow> error + (string \<times> JSONValue) list" where
  "pathParamsLoop u env [] tracePathTokens pathParams = Inr pathParams"
| "pathParamsLoop u env (currToken # rest) tracePathTokens pathParams =
     (if isParameter u currToken then
        bind_err (parsePathParameter env (case tracePathTokens of [] \<Rightarrow> None | t # _ \<Rightarrow> Some t))
          (\<lambda>v. pathParamsLoop u env rest (tl tracePathTokens)
                  (assign pathParams (slice_1_m1 currToken) v))
      else pathParamsLoop u env rest (tl tracePathTokens) pathParams)"

fun queryLoop ::
  "DiffEnv \<Rightarrow> PairObject list \<Rightarrow> (string \<times> JSONValue) list \<Rightarrow> error + (string \<times> JSONValue) list" where
  "queryLoop env [] query = Inr query"
| "queryLoop env ((name, val) # rest) query =
     bind_err (parsedJsonNonNull env val True) (\<lambda>v. queryLoop env rest (assign query name v))"

text \<open>\<^verbatim>\<open>{ ...reqErrorItems, ...respErrorItems }\<close>.\<close>

definition spread :: "ErrorItems \<Rightarrow> ErrorItems \<Rightarrow> ErrorItems" where
  "spread a b = foldl (\<lambda>acc kv. assign acc (fst kv) (snd kv)) a b"

text \<open>
  The body of the \<^verbatim>\<open>try\<close> block, statement by statement. A validator object is
  represented by the arguments of its constructor.
\<close>

definition findOpenApiSpecDiff_try ::
  "Utils \<Rightarrow> DiffEnv \<Rightarrow> ApiTrace \<Rightarrow> ApiEndpoint \<Rightarrow> error + Alert list" where
  "findOpenApiSpecDiff_try u env trace endpoint =
     bind_err (findOneBy env (ep_openapiSpecName endpoint)) (\<lambda>found.
       case found of
         None \<Rightarrow> Inr []
       | Some openApiSpec \<Rightarrow>
           if spec_isAutoGenerated openApiSpec then Inr []
           else
             bind_err (getBlockFieldsEntry env trace) (\<lambda>blockFieldEntry.
             bind_err (yaml_load env (spec_spec openApiSpec)) (\<lambda>specObject.
             bind_err (dereference env specObject) (\<lambda>parsedSpec.
             bind_err (pathLookup env parsedSpec endpoint) (\<lambda>specPath.
             bind_err (getSpecRequestParameters env parsedSpec endpoint) (\<lambda>specRequestParameters.
             bind_err (getSpecRequestBody env parsedSpec endpoint) (\<lambda>specRequestBody.
             bind_err (newRequestValidator env (map_option sv_value specRequestParameters)
                         (map_option sv_value specRequestBody) parsedSpec) (\<lambda>requestValidator.
             bind_err (parsedJsonNonNull env (tr_requestBody trace) False) (\<lambda>body.
             bind_err (pathParamsLoop u env (getPathTokens u (ep_path endpoint))
                         (getPathTokens u (tr_path trace)) []) (\<lambda>pathParams.
             let headers = foldl (\<lambda>acc h. assign acc (fst h) (snd h)) [] (tr_requestHeaders trace)
             in
             bind_err (queryLoop env (tr_requestParameters trace) []) (\<lambda>query.
             let traceRequest = \<lparr> rq_headers = headers, rq_body = body, rq_query = query,
                                  rq_params = pathParams \<rparr>;
                 disabledPaths = (case blockFieldEntry of None \<Rightarrow> [] | Some ps \<Rightarrow> ps)
             in
             bind_err (validateRequest env (map_option sv_value specRequestParameters)
                         (map_option sv_value specRequestBody) parsedSpec traceRequest)
               (\<lambda>requestErrors.
             bind_err (property_of specRequestParameters sv_path) (\<lambda>parametersPath.
             bind_err (property_of specRequestBody sv_path) (\<lambda>bodyPath.
             bind_err (property_of specRequestParameters sv_value) (\<lambda>parametersValue.
             bind_err (generateAlertMessageFromReqErrors env requestErrors parametersPath bodyPath
                         parametersValue disabledPaths) (\<lambda>reqErrorItems.
             bind_err (getSpecResponses env parsedSpec endpoint) (\<lambda>responses.
             bind_err (newResponseValidator env specObject (map_option sv_value responses))
               (\<lambda>responseValidator.
             let resHeaders = foldl (\<lambda>acc h. assign acc (fst h) (snd h)) [] (tr_responseHeaders trace)
             in
             bind_err (parsedJsonNonNull env (tr_responseBody trace) True) (\<lambda>traceResponseBody.
             bind_err (validateResponse env specObject (map_option sv_value responses)
                         (tr_responseStatus trace) traceResponseBody resHeaders) (\<lambda>responseErrors.
             bind_err (generateAlertMessageFromRespErrors env responseErrors
                         (map_option sv_path responses) disabledPaths) (\<lambda>respErrorItems.
             createSpecDiffAlerts env (spread reqErrorItems respErrorItems) (ep_uuid endpoint)
               trace openApiSpec)))))))))))))))))))))"

text \<open>
  \<^verbatim>\<open>findOpenApiSpecDiff\<close>: the \<^verbatim>\<open>catch\<close> logs the error and returns the empty list.
  The result is a sum so that "does not throw" is a statement about the value.
\<close>

definition findOpenApiSpecDiff ::
  "Utils \<Rightarrow> DiffEnv \<Rightarrow> ApiTrace \<Rightarrow> ApiEndpoint \<Rightarrow> error + Alert list" where
  "findOpenApiSpecDiff u env trace endpoint =
     (case findOpenApiSpecDiff_try u env trace endpoint of
        Inl err \<Rightarrow> Inr []
      | Inr alerts \<Rightarrow> Inr alerts)"


section \<open>Statistical path generalizer\<close>

definition TRACE_LIMIT :: nat where
  "TRACE_LIMIT = 10000"

text \<open>
  The values of the JavaScript type \<^verbatim>\<open>number\<close> that this code can produce: it
  divides counts and sums of such quotients by lengths, so a value is a
  non-negative rational, \<^verbatim>\<open>Infinity\<close> (a positive value divided by 0) or \<^verbatim>\<open>NaN\<close>
  (0 divided by 0, or arithmetic on \<^verbatim>\<open>undefined\<close>, on a function or on a string
  that spells no number). Doubles are modelled by exact
  rationals. For the comparison with \<^verbatim>\<open>THRESHOLD\<close> this loses nothing: division is
  correctly rounded, so \<^verbatim>\<open>c / n\<close> with \<open>n = 10 * c\<close> is the same double as the literal
  \<^verbatim>\<open>0.1\<close>, and for a sample of at most \<open>TRACE_LIMIT\<close> traces any other quotient differs
  from one tenth by at least \<open>1 / (10 * TRACE_LIMIT)\<close>, far more than a rounding error.
\<close>

datatype number = NaN | Infinity | Num rat

definition THRESHOLD :: number where
  "THRESHOLD = Num (1 / 10)"

text \<open>\<^verbatim>\<open>x / n\<close> for a length or count \<open>n\<close>.\<close>

fun js_div :: "number \<Rightarrow> nat \<Rightarrow> number" where
  "js_div NaN n = NaN"
| "js_div Infinity n = Infinity"
| "js_div (Num q) n =
     (if n = 0 then (if q = 0 then NaN else Infinity) else Num (q / of_nat n))"

fun js_add :: "number \<Rightarrow> number \<Rightarrow> number" where
  "js_add (Num a) (Num b) = Num (a + b)"
| "js_add NaN _ = NaN"
| "js_add _ NaN = NaN"
| "js_add Infinity _ = Infinity"
| "js_add (Num a) Infinity = Infinity"

text \<open>\<^verbatim>\<open>x < y\<close>: false as soon as one side is \<^verbatim>\<open>NaN\<close>.\<close>

fun js_less :: "number \<Rightarrow> number \<Rightarrow> bool" where
  "js_less (Num a) (Num b) = (a < b)"
| "js_less (Num a) Infinity = True"
| "js_less _ _ = False"

text \<open>Truthiness of a number: \<^verbatim>\<open>0\<close> and \<^verbatim>\<open>NaN\<close> are falsy.\<close>

fun truthy :: "number \<Rightarrow> bool" where
  "truthy (Num q) = (q \<noteq> 0)"
| "truthy Infinity = True"
| "truthy NaN = False"

text \<open>
  The sign of \<^verbatim>\<open>x - y\<close> as a sort comparator sees it: a \<^verbatim>\<open>NaN\<close> result counts as 0.
\<close>

fun js_sub_sign :: "number \<Rightarrow> number \<Rightarrow> int" where
  "js_sub_sign (Num a) (Num b) = (if a < b then -1 else if a = b then 0 else 1)"
| "js_sub_sign Infinity (Num b) = 1"
| "js_sub_sign (Num a) Infinity = -1"
| "js_sub_sign Infinity Infinity = 0"
| "js_sub_sign NaN _ = 0"
| "js_sub_sign _ NaN = 0"


text \<open>
  \<^verbatim>\<open>counterMap\<close>: an object keyed by position whose values are objects keyed by
  token. Each inner object is a plain \<^verbatim>\<open>{}\<close> and inherits the members of
  \<^verbatim>\<open>Object.prototype\<close>. For a token that names one of them,
  \<^verbatim>\<open>counterMap[pos][token]\<close> is a function or an object before anything is stored:
  \<^verbatim>\<open>!counterMap[pos][token]\<close> is false, and \<^verbatim>\<open>+= 1\<close> appends to the text of that
  member, so what is stored is a string (for \<^verbatim>\<open>__proto__\<close> nothing is stored and
  the slot keeps reading as the prototype object). A slot of an inner object
  is therefore a count or a value that is no number. The positions are decimal
  numerals and the templates start with a slash: none of them names an
  inherited member.
\<close>

definition Object_prototype_members :: "string list" where
  "Object_prototype_members =
     [''constructor'', ''hasOwnProperty'', ''isPrototypeOf'', ''propertyIsEnumerable'',
      ''toLocaleString'', ''toString'', ''valueOf'', ''__proto__'',
      ''__defineGetter__'', ''__defineSetter__'', ''__lookupGetter__'', ''__lookupSetter__'']"

definition inherited :: "string \<Rightarrow> bool" where
  "inherited token = (token \<in> set Object_prototype_members)"

datatype slot = Count nat | NonNumeric

type_synonym CounterMap = "nat \<Rightarrow> (string \<Rightarrow> slot option) option"

text \<open>
  The body of the inner loop of \<^verbatim>\<open>getCounterMap\<close>. Where the token has no slot of
  its own, the test reads \<^verbatim>\<open>undefined\<close> or the inherited member.
\<close>

definition count_token :: "CounterMap \<Rightarrow> nat \<Rightarrow> string \<Rightarrow> CounterMap" where
  "count_token counterMap pos token =
     (let m = (case counterMap pos of None \<Rightarrow> Map.empty | Some m' \<Rightarrow> m') in
      counterMap(pos \<mapsto>
        m(token \<mapsto>
           (case m token of
              None \<Rightarrow> if inherited token then NonNumeric else Count 1
            | Some (Count c) \<Rightarrow> if c = 0 then Count 1 else Count (c + 1)
            | Some NonNumeric \<Rightarrow> NonNumeric))))"

text \<open>The inner loop of \<^verbatim>\<open>getCounterMap\<close>, from position \<open>i\<close> on.\<close>

fun count_tokens :: "CounterMap \<Rightarrow> string list \<Rightarrow> nat \<Rightarrow> CounterMap" where
  "count_tokens counterMap [] i = counterMap"
| "count_tokens counterMap (token # rest) i =
     count_tokens (count_token counterMap i token) rest (i + 1)"

definition getCounterMap :: "Utils \<Rightarrow> ApiTrace list \<Rightarrow> CounterMap" where
  "getCounterMap u traces =
     foldl (\<lambda>counterMap trace. count_tokens counterMap (getPathTokens u (tr_path trace)) 0)
       Map.empty traces"

text \<open>Decimal digits of a number, as a template literal prints it.\<close>

definition digit_char :: "nat \<Rightarrow> char" where
  "digit_char d = char_of (of_char CHR ''0'' + d)"

function string_of_nat :: "nat \<Rightarrow> string" where
  "string_of_nat n =
     (if n < 10 then [digit_char n]
      else string_of_nat (n div 10) @ [digit_char (n mod 10)])"
  by pat_completeness auto
termination
  by (relation "measure id") auto

text \<open>
  The inner loop of \<^verbatim>\<open>getDistinctPaths\<close>, from position \<open>i\<close> on, over the state
  \<open>(path, totalPercent, paramNum)\<close>. \<^verbatim>\<open>counterMap[pos][token]\<close> throws when
  \<^verbatim>\<open>counterMap[pos]\<close> is missing; where only the token is missing it is
  \<^verbatim>\<open>undefined\<close> or the inherited member. Divided by a number, each of these and
  the string that \<^verbatim>\<open>getCounterMap\<close> stores for an inherited member is \<^verbatim>\<open>NaN\<close>.
\<close>

fun path_loop ::
  "CounterMap \<Rightarrow> nat \<Rightarrow> string list \<Rightarrow> nat \<Rightarrow> string \<times> number \<times> nat
     \<Rightarrow> error + string \<times> number \<times> nat" where
  "path_loop counterMap numTraces [] i st = Inr st"
| "path_loop counterMap numTraces (token # rest) i (path, totalPercent, paramNum) =
     (case counterMap i of
        None \<Rightarrow> Inl (Thrown None ''TypeError: Cannot read properties of undefined'')
      | Some m \<Rightarrow>
          (let tokenPercentOccurence =
                 js_div (case m token of
                           None \<Rightarrow> NaN
                         | Some (Count c) \<Rightarrow> Num (of_nat c)
                         | Some NonNumeric \<Rightarrow> NaN) numTraces;
               totalPercent' = js_add totalPercent tokenPercentOccurence
           in
           if js_less tokenPercentOccurence THRESHOLD then
             path_loop counterMap numTraces rest (i + 1)
               (path @ ''/{param'' @ string_of_nat paramNum @ ''}'', totalPercent', paramNum + 1)
           else
             path_loop counterMap numTraces rest (i + 1)
               (path @ ''/'' @ token, totalPercent', paramNum)))"

text \<open>
  One round of the outer loop up to the update of \<^verbatim>\<open>distinctPaths\<close>: the template a
  trace generalizes to, and \<^verbatim>\<open>avgTotalPctOccurence\<close>.
\<close>

definition generalize_trace ::
  "Utils \<Rightarrow> CounterMap \<Rightarrow> nat \<Rightarrow> ApiTrace \<Rightarrow> error + string \<times> number" where
  "generalize_trace u counterMap numTraces trace =
     (let pathTokens = getPathTokens u (tr_path trace) in
      bind_err (path_loop counterMap numTraces pathTokens 0 ([], Num 0, 1))
        (\<lambda>(path, totalPercent, paramNum).
           Inr (path, js_div totalPercent (length pathTokens))))"

text \<open>
  \<^verbatim>\<open>distinctPaths\<close> is an object whose keys, templates, keep their insertion order.
  The update: a missing or falsy entry is set, a smaller one is replaced.
\<close>

definition record_path :: "(string \<times> number) list \<Rightarrow> string \<Rightarrow> number \<Rightarrow> (string \<times> number) list" where
  "record_path distinctPaths path avgTotalPctOccurence =
     (case map_of distinctPaths path of
        None \<Rightarrow> assign distinctPaths path avgTotalPctOccurence
      | Some v \<Rightarrow>
          if \<not> truthy v \<or> js_less v avgTotalPctOccurence
          then assign distinctPaths path avgTotalPctOccurence
          else distinctPaths)"

fun distinct_paths_loop ::
  "Utils \<Rightarrow> CounterMap \<Rightarrow> nat \<Rightarrow> ApiTrace list \<Rightarrow> (string \<times> number) list
     \<Rightarrow> error + (string \<times> number) list" where
  "distinct_paths_loop u counterMap numTraces [] distinctPaths = Inr distinctPaths"
| "distinct_paths_loop u counterMap numTraces (trace # rest) distinctPaths =
     bind_err (generalize_trace u counterMap numTraces trace)
       (\<lambda>(path, avg). distinct_paths_loop u counterMap numTraces rest
                         (record_path distinctPaths path avg))"

definition getDistinctPaths ::
  "Utils \<Rightarrow> CounterMap \<Rightarrow> ApiTrace list \<Rightarrow> nat \<Rightarrow> error + (string \<times> number) list" where
  "getDistinctPaths u counterMap traces numTraces =
     distinct_paths_loop u counterMap numTraces traces []"

text \<open>
  \<^verbatim>\<open>Array.prototype.sort\<close> with a comparator is a stable sort; for a comparator
  that is a consistent order its result is the one of this insertion sort. Where
  a confidence is \<^verbatim>\<open>NaN\<close> the comparator is no consistent order, since a \<^verbatim>\<open>NaN\<close>
  difference counts as 0, and the language leaves the order to the engine. Keys
  whose neighbours all compare as equal stay in the order of insertion, in this
  insertion sort as in a merge sort that finds the keys to be one run.
\<close>

fun insert_by :: "('a \<Rightarrow> 'a \<Rightarrow> int) \<Rightarrow> 'a \<Rightarrow> 'a list \<Rightarrow> 'a list" where
  "insert_by compareFn x [] = [x]"
| "insert_by compareFn x (y # ys) =
     (if compareFn x y \<le> 0 then x # y # ys else y # insert_by compareFn x ys)"

definition js_sort :: "('a \<Rightarrow> 'a \<Rightarrow> int) \<Rightarrow> 'a list \<Rightarrow> 'a list" where
  "js_sort compareFn xs = foldr (insert_by compareFn) xs []"

text \<open>\<^verbatim>\<open>distinctPaths[k]\<close>; \<^verbatim>\<open>undefined\<close> in arithmetic is \<^verbatim>\<open>NaN\<close>.\<close>

definition lookup_number :: "(string \<times> number) list \<Rightarrow> string \<Rightarrow> number" where
  "lookup_number distinctPaths k = (case map_of distinctPaths k of None \<Rightarrow> NaN | Some v \<Rightarrow> v)"

text \<open>
  The query of \<^verbatim>\<open>getTopSuggestedPaths\<close>: the traces of the endpoint, newest first, at
  most \<open>TRACE_LIMIT\<close>.
\<close>

definition find_traces :: "DB \<Rightarrow> string \<Rightarrow> ApiTrace list" where
  "find_traces db endpointId =
     take TRACE_LIMIT
       (sort_key (\<lambda>t. - tr_createdAt t)
          (filter (\<lambda>t. tr_apiEndpointUuid t = endpointId) (db_traces db)))"

definition getTopSuggestedPaths :: "Utils \<Rightarrow> DB \<Rightarrow> string \<Rightarrow> error + string list" where
  "getTopSuggestedPaths u db endpointId =
     (let traces = find_traces db endpointId;
          numTraces = length traces;
          counterMap = getCounterMap u traces
      in
      bind_err (getDistinctPaths u counterMap traces numTraces)
        (\<lambda>distinctPaths.
           let sorted = js_sort (\<lambda>a b. js_sub_sign (lookup_number distinctPaths b)
                                                   (lookup_number distinctPaths a))
                          (map fst distinctPaths)
           in Inr (take 100 sorted)))"

text \<open>
  The generalizer stated over the sample, to say what the code computes: how
  often a token stands at a position of the sample and the fraction of the sample
  that is; the quotient the code forms for a token it has counted there, which is
  that fraction unless the token names an inherited member; the segments of the
  template of a trace and the average of the quotients over its tokens.
\<close>

definition occurrences :: "Utils \<Rightarrow> ApiTrace list \<Rightarrow> nat \<Rightarrow> string \<Rightarrow> nat" where
  "occurrences u traces i token =
     length (filter (\<lambda>t. i < length (getPathTokens u (tr_path t)) \<and>
                          getPathTokens u (tr_path t) ! i = token) traces)"

definition occurrenceFraction :: "Utils \<Rightarrow> ApiTrace list \<Rightarrow> nat \<Rightarrow> string \<Rightarrow> rat" where
  "occurrenceFraction u traces i token =
     of_nat (occurrences u traces i token) / of_nat (length traces)"

definition tokenPercentOccurence :: "Utils \<Rightarrow> ApiTrace list \<Rightarrow> nat \<Rightarrow> string \<Rightarrow> number" where
  "tokenPercentOccurence u traces i token =
     (if inherited token then NaN else Num (occurrenceFraction u traces i token))"

fun segments_from :: "(nat \<Rightarrow> string \<Rightarrow> number) \<Rightarrow> string list \<Rightarrow> nat \<Rightarrow> nat \<Rightarrow> string list" where
  "segments_from f [] i paramNum = []"
| "segments_from f (token # rest) i paramNum =
     (if js_less (f i token) THRESHOLD
      then (''/{param'' @ string_of_nat paramNum @ ''}'') # segments_from f rest (i + 1) (paramNum + 1)
      else (''/'' @ token) # segments_from f rest (i + 1) paramNum)"

fun total_from :: "(nat \<Rightarrow> string \<Rightarrow> number) \<Rightarrow> string list \<Rightarrow> nat \<Rightarrow> number \<Rightarrow> number" where
  "total_from f [] i totalPercent = totalPercent"
| "total_from f (token # rest) i totalPercent =
     total_from f rest (i + 1) (js_add totalPercent (f i token))"

definition template_segments :: "Utils \<Rightarrow> ApiTrace list \<Rightarrow> ApiTrace \<Rightarrow> string list" where
  "template_segments u traces t =
     segments_from (tokenPercentOccurence u traces) (getPathTokens u (tr_path t)) 0 1"

definition template :: "Utils \<Rightarrow> ApiTrace list \<Rightarrow> ApiTrace \<Rightarrow> string" where
  "template u traces t = concat (template_segments u traces t)"

definition confidence :: "Utils \<Rightarrow> ApiTrace list \<Rightarrow> ApiTrace \<Rightarrow> number" where
  "confidence u traces t =
     js_div (total_from (tokenPercentOccurence u traces) (getPathTokens u (tr_path t)) 0 (Num 0))
       (length (getPathTokens u (tr_path t)))"


section \<open>Endpoint resolution and merge\<close>

text \<open>A \<^verbatim>\<open>for\<close> loop whose body may throw: the first exception ends the loop.\<close>

fun fold_err :: "('s \<Rightarrow> 'a \<Rightarrow> error + 's) \<Rightarrow> 's \<Rightarrow> 'a list \<Rightarrow> error + 's" where
  "fold_err f s [] = Inr s"
| "fold_err f s (x # xs) = bind_err (f s x) (\<lambda>s'. fold_err f s' xs)"

text \<open>
  The interface \<^verbatim>\<open>EndpointsMap\<close>; \<^verbatim>\<open>Record<string, EndpointsMap>\<close> and
  \<^verbatim>\<open>Record<string, ApiEndpoint>\<close> are objects keyed by uuid, whose keys keep their
  insertion order.
\<close>

record EndpointsMap =
  em_endpoint :: ApiEndpoint
  em_similarEndpoints :: "(string \<times> ApiEndpoint) list"

type_synonym EndpointsRecord = "(string \<times> EndpointsMap) list"

text \<open>
  What the spec service calls outside the sources, as parameters: the helpers of
  \<^verbatim>\<open>./utils\<close>, the Swagger converter, the two serializers, \<^verbatim>\<open>uuidv4\<close> (the \<open>n\<close>-th
  identifier it hands out), the clock, the values of the enum \<^verbatim>\<open>RestMethod\<close>, the
  two raw SQL statements of \<^verbatim>\<open>./queries\<close> and \<^verbatim>\<open>deleteEndpointsBatch\<close>; the last
  three write to the database and may fail. Each of the two statements is an
  insertion into one table, the data fields and the hourly aggregates: the
  parameter gives the rows of that table after the statement.
\<close>

record SpecEnv =
  getOpenAPISpecVersion :: "JSONValue \<Rightarrow> nat option"
  validateSpecSchema :: "JSONValue \<Rightarrow> nat option \<Rightarrow> string list"
  convertObj :: "JSONValue \<Rightarrow> error + JSONValue option"
  yaml_toString :: "JSONValue \<Rightarrow> string"
  json_stringify :: "JSONValue \<Rightarrow> string"
  getServersV3 :: "JSONValue \<Rightarrow> string \<Rightarrow> string \<Rightarrow> JSONValue list"
  getHostsV3 :: "JSONValue list \<Rightarrow> string list"
  uuidv4 :: "nat \<Rightarrow> string"
  currTime :: int
  restMethods :: "string list"
  insertDataFieldQuery :: "DB \<Rightarrow> string list \<Rightarrow> string \<Rightarrow> error + DataField list"
  insertAggregateHourlyQuery ::
    "DB \<Rightarrow> string \<Rightarrow> string list \<Rightarrow> error + AggregateTraceDataHourly list"
  deleteEndpointsBatch :: "DB \<Rightarrow> string list \<Rightarrow> error + DB"

subsection \<open>The tie-break between candidates of one batch\<close>

text \<open>
  The callback of \<^verbatim>\<open>Object.keys(endpointsMap).forEach\<close> inside
  \<^verbatim>\<open>similarEndpoints.forEach\<close>, over the state \<open>(endpointsMap, exists)\<close>. The same
  text stands in \<^verbatim>\<open>uploadNewSpec\<close> and in \<^verbatim>\<open>generateEndpointsMap\<close>.
\<close>

fun release_loop ::
  "ApiEndpoint \<Rightarrow> ApiEndpoint \<Rightarrow> string list \<Rightarrow> EndpointsRecord \<times> bool \<Rightarrow> EndpointsRecord \<times> bool" where
  "release_loop apiEndpoint item [] st = st"
| "release_loop apiEndpoint item (uuid # rest) (endpointsMap, exists) =
     (case map_of endpointsMap uuid of
        None \<Rightarrow> release_loop apiEndpoint item rest (endpointsMap, exists)
      | Some entry \<Rightarrow>
          if map_of (em_similarEndpoints entry) (ep_uuid item) \<noteq> None then
            if ep_numberParams apiEndpoint = ep_numberParams item \<or>
               (ep_numberParams (em_endpoint entry) \<noteq> ep_numberParams item \<and>
                ep_numberParams apiEndpoint < ep_numberParams (em_endpoint entry))
            then release_loop apiEndpoint item rest
                   (assign endpointsMap uuid
                      (entry\<lparr>em_similarEndpoints :=
                                delete_key (em_similarEndpoints entry) (ep_uuid item)\<rparr>),
                    False)
            else release_loop apiEndpoint item rest (endpointsMap, True)
          else release_loop apiEndpoint item rest (endpointsMap, exists))"

text \<open>
  \<^verbatim>\<open>endpointsMap[apiEndpoint.uuid].similarEndpoints[item.uuid] = item\<close>; both callers
  have stored the entry of \<^verbatim>\<open>apiEndpoint\<close> just before.
\<close>

definition add_similar :: "EndpointsRecord \<Rightarrow> string \<Rightarrow> ApiEndpoint \<Rightarrow> EndpointsRecord" where
  "add_similar endpointsMap uuid item =
     map (\<lambda>(k, entry).
            if k = uuid
            then (k, entry\<lparr>em_similarEndpoints :=
                               assign (em_similarEndpoints entry) (ep_uuid item) item\<rparr>)
            else (k, entry))
       endpointsMap"

text \<open>The callback of \<^verbatim>\<open>similarEndpoints.forEach\<close>.\<close>

definition claim_similar :: "ApiEndpoint \<Rightarrow> EndpointsRecord \<Rightarrow> ApiEndpoint \<Rightarrow> EndpointsRecord" where
  "claim_similar apiEndpoint endpointsMap item =
     (case (if map_of endpointsMap (ep_uuid item) = None
            then release_loop apiEndpoint item (map fst endpointsMap) (endpointsMap, False)
            else (endpointsMap, False)) of
        (endpointsMap', exists) \<Rightarrow>
          if \<not> exists then add_similar endpointsMap' (ep_uuid apiEndpoint) item
          else endpointsMap')"

text \<open>The candidates, by uuid, whose \<^verbatim>\<open>similarEndpoints\<close> hold a given identity.\<close>

definition holders :: "EndpointsRecord \<Rightarrow> string \<Rightarrow> string list" where
  "holders endpointsMap itemUuid =
     map fst (filter (\<lambda>kv. map_of (em_similarEndpoints (snd kv)) itemUuid \<noteq> None) endpointsMap)"

subsection \<open>Queries\<close>

definition load_openapiSpec :: "DB \<Rightarrow> ApiEndpoint \<Rightarrow> ApiEndpoint" where
  "load_openapiSpec db e =
     e\<lparr>ep_openapiSpec :=
          (case ep_openapiSpecName e of
             None \<Rightarrow> None
           | Some n \<Rightarrow> find (\<lambda>s. spec_name s = n) (db_specs db))\<rparr>"

text \<open>\<^verbatim>\<open>findOne\<close> on path, method and host.\<close>

definition findOne :: "DB \<Rightarrow> string \<Rightarrow> string \<Rightarrow> string \<Rightarrow> ApiEndpoint option" where
  "findOne db path' method' host' =
     find (\<lambda>e. ep_path e = path' \<and> ep_method e = method' \<and> ep_host e = host') (db_endpoints db)"

text \<open>The similar endpoints of \<^verbatim>\<open>uploadNewSpec\<close>: \<^verbatim>\<open>path ~ :pathRegex\<close>.\<close>

definition find_similar :: "Utils \<Rightarrow> DB \<Rightarrow> string \<Rightarrow> string \<Rightarrow> string \<Rightarrow> ApiEndpoint list" where
  "find_similar u db pathRegex method' host' =
     filter (\<lambda>e. regexMatch u (ep_path e) pathRegex \<and> ep_method e = method' \<and> ep_host e = host')
       (db_endpoints db)"

text \<open>
  The similar endpoints of \<^verbatim>\<open>generateEndpointsMap\<close>:
  \<^verbatim>\<open>:path ~ "pathRegex"\<close> or \<^verbatim>\<open>path ~ :pathRegex\<close>.
\<close>

definition find_similar_both ::
  "Utils \<Rightarrow> DB \<Rightarrow> string \<Rightarrow> string \<Rightarrow> string \<Rightarrow> string \<Rightarrow> ApiEndpoint list" where
  "find_similar_both u db path' pathRegex method' host' =
     filter (\<lambda>e. (regexMatch u path' (ep_pathRegex e) \<or> regexMatch u (ep_path e) pathRegex) \<and>
                  ep_method e = method' \<and> ep_host e = host')
       (db_endpoints db)"

text \<open>\<^verbatim>\<open>manager.save\<close>: the row with the same primary key is replaced, else one is added.\<close>

fun upsert :: "('a \<Rightarrow> 'k) \<Rightarrow> 'a \<Rightarrow> 'a list \<Rightarrow> 'a list" where
  "upsert key x [] = [x]"
| "upsert key x (y # ys) = (if key y = key x then x # ys else y # upsert key x ys)"

definition save_spec :: "DB \<Rightarrow> OpenApiSpec \<Rightarrow> DB" where
  "save_spec db s = db\<lparr>db_specs := upsert spec_name s (db_specs db)\<rparr>"

text \<open>The stored row takes the name of the relation object when there is one.\<close>

definition save_endpoint :: "DB \<Rightarrow> ApiEndpoint \<Rightarrow> DB" where
  "save_endpoint db e =
     db\<lparr>db_endpoints :=
          upsert ep_uuid
            (e\<lparr>ep_openapiSpecName :=
                  (case ep_openapiSpec e of
                     None \<Rightarrow> ep_openapiSpecName e
                   | Some s \<Rightarrow> Some (spec_name s)),
               ep_openapiSpec := None\<rparr>)
            (db_endpoints db)\<rparr>"

subsection \<open>\<^verbatim>\<open>uploadNewSpec\<close>: reading the spec\<close>

text \<open>The properties of a JSON value in the order of \<^verbatim>\<open>Object.keys\<close>.\<close>

fun entries :: "JSONValue \<Rightarrow> (string \<times> JSONValue) list" where
  "entries (JObj kvs) = kvs"
| "entries (JArr xs) = zip (map string_of_nat [0..<length xs]) xs"
| "entries (JStr s) = zip (map string_of_nat [0..<length s]) (map (\<lambda>c. JStr [c]) s)"
| "entries _ = []"

text \<open>\<^verbatim>\<open>Object.keys(v)\<close> throws on \<^verbatim>\<open>undefined\<close> and \<^verbatim>\<open>null\<close>.\<close>

definition object_keys :: "JSONValue option \<Rightarrow> error + string list" where
  "object_keys v =
     (case v of
        None \<Rightarrow> Inl (Thrown None ''TypeError: Cannot convert undefined or null to object'')
      | Some JNull \<Rightarrow> Inl (Thrown None ''TypeError: Cannot convert undefined or null to object'')
      | Some w \<Rightarrow> Inr (map fst (entries w)))"

text \<open>\<^verbatim>\<open>v[k]\<close> throws on \<^verbatim>\<open>null\<close>.\<close>

definition get_property :: "JSONValue \<Rightarrow> string \<Rightarrow> error + JSONValue option" where
  "get_property v k =
     (case v of
        JNull \<Rightarrow> Inl (Thrown None ''TypeError: Cannot read properties of null'')
      | _ \<Rightarrow> Inr (map_of (entries v) k))"

definition toUpperCase :: "string \<Rightarrow> string" where
  "toUpperCase s =
     map (\<lambda>c. if (97::nat) \<le> of_char c \<and> of_char c \<le> (122::nat)
               then char_of (of_char c - (32::nat)) else c) s"

text \<open>Lines 170 to 198: the version, the validation, the conversion of version 2.\<close>

definition normalize_spec ::
  "SpecEnv \<Rightarrow> JSONValue \<Rightarrow> SpecExtension \<Rightarrow> string \<Rightarrow> error + JSONValue \<times> string" where
  "normalize_spec env specObject extension specString =
     (case getOpenAPISpecVersion env specObject of
        None \<Rightarrow> Inl (Error422UnprocessableEntity
                      ''Invalid OpenAPI Spec: No swagger or openapi field defined.'')
      | Some specVersion \<Rightarrow>
          if validateSpecSchema env specObject (Some specVersion) \<noteq> []
          then Inl (Error422UnprocessableEntity ''Invalid OpenAPI Spec'')
          else if specVersion = 2 then
            bind_err (convertObj env specObject) (\<lambda>converted.
              case converted of
                None \<Rightarrow> Inl (Error500InternalServer ''Unable to convert swagger spec to OpenAPI V3.'')
              | Some openapi \<Rightarrow>
                  Inr (openapi,
                       if extension = YAML then yaml_toString env openapi
                       else json_stringify env openapi))
          else Inr (specObject, specString))"

text \<open>Lines 205 to 216: the spec row of that name, or a new one.\<close>

definition existing_spec :: "SpecEnv \<Rightarrow> DB \<Rightarrow> string \<Rightarrow> SpecExtension \<Rightarrow> string \<Rightarrow> OpenApiSpec" where
  "existing_spec env db fileName extension specString =
     (case find (\<lambda>s. spec_name s = fileName) (db_specs db) of
        None \<Rightarrow>
          \<lparr> spec_name = fileName, spec_spec = specString, spec_isAutoGenerated = False,
            spec_extension = extension, spec_createdAt = currTime env,
            spec_updatedAt = currTime env, spec_specUpdatedAt = currTime env, spec_hosts = [] \<rparr>
      | Some s \<Rightarrow>
          s\<lparr>spec_spec := specString, spec_specUpdatedAt := currTime env,
            spec_updatedAt := currTime env\<rparr>)"

subsection \<open>\<^verbatim>\<open>uploadNewSpec\<close>: resolution\<close>

text \<open>Adding to a \<^verbatim>\<open>Set\<close>, which keeps insertion order.\<close>

definition set_add :: "string list \<Rightarrow> string \<Rightarrow> string list" where
  "set_add xs x = (if x \<in> set xs then xs else xs @ [x])"

text \<open>
  Lines 236 to 315, one host of one operation. The state is \<^verbatim>\<open>endpointsMap\<close> and
  the number of uuids handed out. The relation object \<^verbatim>\<open>apiEndpoint.openapiSpec\<close> is
  a reference to \<^verbatim>\<open>existingSpec\<close>; here it is a copy, of which only the name is
  read later.
\<close>

definition resolve_host ::
  "Utils \<Rightarrow> SpecEnv \<Rightarrow> DB \<Rightarrow> OpenApiSpec \<Rightarrow> string \<Rightarrow> string \<Rightarrow> string
     \<Rightarrow> EndpointsRecord \<times> nat \<Rightarrow> string \<Rightarrow> error + EndpointsRecord \<times> nat" where
  "resolve_host u env db existingSpec path' pathRegex methodEnum st host' =
     (case st of (endpointsMap, n) \<Rightarrow>
      (case map_option (load_openapiSpec db) (findOne db path' methodEnum host') of
         None \<Rightarrow>
           (let apiEndpoint =
                  \<lparr> ep_uuid = uuidv4 env n, ep_path = path', ep_pathRegex = pathRegex,
                    ep_method = methodEnum, ep_host = host',
                    ep_numberParams = numberParamsOf u path',
                    ep_openapiSpecName = None, ep_openapiSpec = Some existingSpec,
                    ep_riskScore = None, ep_firstDetected = None, ep_lastActive = None \<rparr>;
                endpointsMap1 =
                  assign endpointsMap (ep_uuid apiEndpoint)
                    \<lparr> em_endpoint = apiEndpoint, em_similarEndpoints = [] \<rparr>
            in Inr (foldl (claim_similar apiEndpoint) endpointsMap1
                      (find_similar u db pathRegex methodEnum host'),
                    n + 1))
       | Some found \<Rightarrow>
           if (case ep_openapiSpecName found of None \<Rightarrow> True | Some name \<Rightarrow> name = []) \<or>
              (case ep_openapiSpec found of None \<Rightarrow> False | Some s \<Rightarrow> spec_isAutoGenerated s)
           then
             (let apiEndpoint =
                    found\<lparr>ep_openapiSpec := Some existingSpec,
                          ep_openapiSpecName := Some (spec_name existingSpec)\<rparr>;
                  endpointsMap1 =
                    assign endpointsMap (ep_uuid apiEndpoint)
                      \<lparr> em_endpoint = apiEndpoint, em_similarEndpoints = [] \<rparr>
              in Inr (map (\<lambda>(k, entry).
                             (k, entry\<lparr>em_similarEndpoints :=
                                           delete_key (em_similarEndpoints entry)
                                             (ep_uuid apiEndpoint)\<rparr>))
                        endpointsMap1,
                      n))
           else
             Inl (Error409Conflict
                    (''Path '' @ ep_path found @
                     '' defined in the given new spec file is already defined in another user defined spec file: ''
                     @ or_undefined (ep_openapiSpecName found)))))"

text \<open>Lines 225 to 316, one method of one path. The state adds \<^verbatim>\<open>specHosts\<close>.\<close>

definition resolve_method ::
  "Utils \<Rightarrow> SpecEnv \<Rightarrow> DB \<Rightarrow> JSONValue \<Rightarrow> OpenApiSpec \<Rightarrow> string \<Rightarrow> string
     \<Rightarrow> EndpointsRecord \<times> string list \<times> nat \<Rightarrow> string
     \<Rightarrow> error + EndpointsRecord \<times> string list \<times> nat" where
  "resolve_method u env db specObject existingSpec path' pathRegex st method' =
     (case st of (endpointsMap, specHosts, n) \<Rightarrow>
      (let servers = getServersV3 env specObject path' method' in
       if servers = [] then Inl (Error422UnprocessableEntity ''No servers found in spec file.'')
       else
         (let hosts = getHostsV3 env servers in
          bind_err (fold_err (resolve_host u env db existingSpec path' pathRegex (toUpperCase method'))
                      (endpointsMap, n) hosts)
            (\<lambda>(endpointsMap', n'). Inr (endpointsMap', foldl set_add specHosts hosts, n')))))"

text \<open>Lines 220 to 317, one path.\<close>

definition resolve_path ::
  "Utils \<Rightarrow> SpecEnv \<Rightarrow> DB \<Rightarrow> JSONValue \<Rightarrow> JSONValue \<Rightarrow> OpenApiSpec
     \<Rightarrow> EndpointsRecord \<times> string list \<times> nat \<Rightarrow> string
     \<Rightarrow> error + EndpointsRecord \<times> string list \<times> nat" where
  "resolve_path u env db specObject paths existingSpec st path' =
     (let pathRegex = getPathRegex u path' in
      bind_err (object_keys (map_of (entries paths) path')) (\<lambda>keys.
        fold_err (resolve_method u env db specObject existingSpec path' pathRegex) st
          (filter (\<lambda>key. toUpperCase key \<in> set (restMethods env)) keys)))"

text \<open>Lines 200 to 319: everything before the transaction. Nothing is written.\<close>

definition resolve_spec ::
  "Utils \<Rightarrow> SpecEnv \<Rightarrow> DB \<Rightarrow> JSONValue \<Rightarrow> string \<Rightarrow> SpecExtension \<Rightarrow> string
     \<Rightarrow> error + OpenApiSpec \<times> EndpointsRecord" where
  "resolve_spec u env db specObject fileName extension specString =
     bind_err (get_property specObject ''paths'') (\<lambda>paths.
       let existingSpec = existing_spec env db fileName extension specString in
       bind_err (object_keys paths) (\<lambda>pathKeys.
         case paths of
           None \<Rightarrow> Inl (Thrown None ''TypeError: Cannot convert undefined or null to object'')
         | Some ps \<Rightarrow>
             bind_err (fold_err (resolve_path u env db specObject ps existingSpec) ([], [], 0) pathKeys)
               (\<lambda>(endpointsMap, specHosts, n).
                  Inr (existingSpec\<lparr>spec_hosts := specHosts\<rparr>, endpointsMap))))"

subsection \<open>\<^verbatim>\<open>uploadNewSpec\<close>: the transaction\<close>

text \<open>
  Modelled from the spec: the method \<^verbatim>\<open>updateDates\<close> of the entity class is not among
  the sources. The specification, section 4.2, step 5: the activity window is
  widened, \<open>firstDetected\<close> to the minimum and \<open>lastActive\<close> to the maximum. A missing
  date changes nothing, a first date sets both ends.
\<close>

definition updateDates :: "ApiEndpoint \<Rightarrow> int option \<Rightarrow> ApiEndpoint" where
  "updateDates e d =
     (case d of
        None \<Rightarrow> e
      | Some t \<Rightarrow>
          e\<lparr>ep_firstDetected :=
               Some (case ep_firstDetected e of None \<Rightarrow> t | Some f \<Rightarrow> min f t),
            ep_lastActive :=
               Some (case ep_lastActive e of None \<Rightarrow> t | Some l \<Rightarrow> max l t)\<rparr>)"

text \<open>
  Lines 336 to 346, the body of the loop over \<^verbatim>\<open>item.similarEndpoints\<close>.
  \<^verbatim>\<open>RISK_SCORE_ORDER[undefined]\<close> is \<^verbatim>\<open>undefined\<close>, and a comparison with it is false.
\<close>

definition absorb :: "ApiEndpoint \<Rightarrow> ApiEndpoint \<Rightarrow> ApiEndpoint" where
  "absorb endpoint e =
     (let endpoint1 =
            (if (case ep_riskScore endpoint of
                   None \<Rightarrow> True
                 | Some r \<Rightarrow>
                     (case ep_riskScore e of
                        None \<Rightarrow> False
                      | Some r' \<Rightarrow> RISK_SCORE_ORDER r < RISK_SCORE_ORDER r'))
             then endpoint\<lparr>ep_riskScore := ep_riskScore e\<rparr>
             else endpoint)
      in updateDates (updateDates endpoint1 (ep_firstDetected e)) (ep_lastActive e))"

definition merged_endpoint :: "EndpointsMap \<Rightarrow> ApiEndpoint" where
  "merged_endpoint item = foldl absorb (em_endpoint item) (map snd (em_similarEndpoints item))"

text \<open>
  Lines 333 to 412, one round of the loop over \<^verbatim>\<open>Object.values(endpointsMap)\<close>. A
  failure gives the error and the tables as they stand then.
\<close>

definition merge_item :: "SpecEnv \<Rightarrow> DB \<Rightarrow> EndpointsMap \<Rightarrow> error \<times> DB + DB" where
  "merge_item env db item =
     (let db1 = save_endpoint db (em_endpoint item);
          similarEndpointUuids = map (\<lambda>e. ep_uuid e) (map snd (em_similarEndpoints item));
          endpoint' = merged_endpoint item
      in
      if similarEndpointUuids = [] then Inr db1
      else
        (let db2 = save_endpoint db1 endpoint';
             db3 = db2\<lparr>db_traces :=
                         map (\<lambda>t. if tr_apiEndpointUuid t \<in> set similarEndpointUuids
                                   then t\<lparr>tr_apiEndpointUuid := ep_uuid endpoint'\<rparr> else t)
                           (db_traces db2)\<rparr>
         in
         case insertDataFieldQuery env db3 similarEndpointUuids (ep_uuid endpoint') of
           Inl err \<Rightarrow> Inl (err, db3)
         | Inr dataFields \<Rightarrow>
             (let db4 = db3\<lparr>db_dataFields := dataFields\<rparr>;
                  db5 = db4\<lparr>db_dataFields :=
                              filter (\<lambda>d. df_apiEndpointUuid d \<notin> set similarEndpointUuids)
                                (db_dataFields db4)\<rparr>;
                  db6 = db5\<lparr>db_alerts :=
                              map (\<lambda>a. if al_apiEndpointUuid a \<in> set similarEndpointUuids \<and>
                                           al_type a \<notin> {NEW_ENDPOINT, OPEN_API_SPEC_DIFF}
                                        then a\<lparr>al_apiEndpointUuid := ep_uuid endpoint'\<rparr> else a)
                                (db_alerts db5)\<rparr>;
                  db7 = db6\<lparr>db_alerts :=
                              filter (\<lambda>a. \<not> (al_apiEndpointUuid a \<in> set similarEndpointUuids \<and>
                                              al_type a \<in> {NEW_ENDPOINT, OPEN_API_SPEC_DIFF}))
                                (db_alerts db6)\<rparr>
              in
              case insertAggregateHourlyQuery env db7 (ep_uuid endpoint') similarEndpointUuids of
                Inl err \<Rightarrow> Inl (err, db7)
              | Inr aggregates \<Rightarrow>
                  (let db8 = db7\<lparr>db_aggregates := aggregates\<rparr> in
                   Inr (db8\<lparr>db_aggregates :=
                               filter (\<lambda>g. ag_apiEndpointUuid g \<notin> set similarEndpointUuids)
                                 (db_aggregates db8),
                             db_endpoints :=
                               filter (\<lambda>e. ep_uuid e \<notin> set similarEndpointUuids)
                                 (db_endpoints db8)\<rparr>)))))"

fun merge_items :: "SpecEnv \<Rightarrow> DB \<Rightarrow> EndpointsMap list \<Rightarrow> error \<times> DB + DB" where
  "merge_items env db [] = Inr db"
| "merge_items env db (item # rest) =
     (case merge_item env db item of
        Inl failed \<Rightarrow> Inl failed
      | Inr db' \<Rightarrow> merge_items env db' rest)"

text \<open>
  \<^verbatim>\<open>uploadNewSpec\<close>. An error before the transaction leaves the database as it
  was. An error inside it is wrapped in \<^verbatim>\<open>Error500InternalServer\<close>; the function's
  own transaction is rolled back, one handed in by the caller is left to the
  caller.
\<close>

definition uploadNewSpec ::
  "Utils \<Rightarrow> SpecEnv \<Rightarrow> DB \<Rightarrow> JSONValue \<Rightarrow> string \<Rightarrow> SpecExtension \<Rightarrow> string \<Rightarrow> bool
     \<Rightarrow> (error + unit) \<times> DB" where
  "uploadNewSpec u env db specObject fileName extension specString existingQueryRunner =
     (case normalize_spec env specObject extension specString of
        Inl err \<Rightarrow> (Inl err, db)
      | Inr (specObject', specString') \<Rightarrow>
          (case resolve_spec u env db specObject' fileName extension specString' of
             Inl err \<Rightarrow> (Inl err, db)
           | Inr (existingSpec, endpointsMap) \<Rightarrow>
               (case merge_items env (save_spec db existingSpec) (map snd endpointsMap) of
                  Inl (err, db_failed) \<Rightarrow>
                    (Inl (Error500InternalServer (err_text err)),
                     if existingQueryRunner then db_failed else db)
                | Inr db' \<Rightarrow> (Inr (), db'))))"

subsection \<open>The manual path edit: \<^verbatim>\<open>generateEndpointsMap\<close>, \<^verbatim>\<open>updateEndpointsFromMap\<close>\<close>

text \<open>The first loop of \<^verbatim>\<open>generateEndpointsMap\<close>, over the state \<^verbatim>\<open>set\<close>.\<close>

definition check_provided_path ::
  "Utils \<Rightarrow> DB \<Rightarrow> string \<Rightarrow> string \<Rightarrow> nat \<Rightarrow> string list \<Rightarrow> string \<Rightarrow> error + string list" where
  "check_provided_path u db method' host' numTokens paths item =
     (let validPath = getValidPath u (Some item) (Some numTokens) in
      if \<not> isValid validPath then
        Inl (Error400BadRequest ((if item \<noteq> [] then item @ '':'' else []) @ '' '' @ errMsg validPath))
      else if findOne db (vp_path validPath) method' host' \<noteq> None then
        Inl (Error400BadRequest
               (item @ '': An endpoint with this path already exists for this method and host.''))
      else Inr (set_add paths (vp_path validPath)))"

text \<open>The second loop, over the state \<^verbatim>\<open>endpointsMap\<close> and the number of uuids handed out.\<close>

definition generate_entry ::
  "Utils \<Rightarrow> SpecEnv \<Rightarrow> DB \<Rightarrow> string \<Rightarrow> string \<Rightarrow> EndpointsRecord \<times> nat \<Rightarrow> string
     \<Rightarrow> EndpointsRecord \<times> nat" where
  "generate_entry u env db method' host' st path' =
     (case st of (endpointsMap, n) \<Rightarrow>
      (let pathRegex = getPathRegex u path';
           apiEndpoint =
             \<lparr> ep_uuid = uuidv4 env n, ep_path = path', ep_pathRegex = pathRegex,
               ep_method = method', ep_host = host',
               ep_numberParams = numberParamsOf u path',
               ep_openapiSpecName = None, ep_openapiSpec = None,
               ep_riskScore = None, ep_firstDetected = None, ep_lastActive = None \<rparr>;
           endpointsMap1 =
             assign endpointsMap (ep_uuid apiEndpoint)
               \<lparr> em_endpoint = apiEndpoint, em_similarEndpoints = [] \<rparr>
       in (foldl (claim_similar apiEndpoint) endpointsMap1
             (find_similar_both u db path' pathRegex method' host'),
           n + 1)))"

definition generateEndpointsMap ::
  "Utils \<Rightarrow> SpecEnv \<Rightarrow> DB \<Rightarrow> string list \<Rightarrow> string \<Rightarrow> string \<Rightarrow> nat \<Rightarrow> error + EndpointsRecord" where
  "generateEndpointsMap u env db providedPaths method' host' numTokens =
     bind_err (fold_err (check_provided_path u db method' host' numTokens) [] providedPaths)
       (\<lambda>paths. Inr (fst (foldl (generate_entry u env db method' host') ([], 0) paths)))"

text \<open>
  \<^verbatim>\<open>updateEndpointsFromMap\<close>: the risk score of every entry's endpoint is set to
  \<^verbatim>\<open>RiskScore.NONE\<close>, the endpoint is saved and its similar endpoints are handed to
  \<^verbatim>\<open>deleteEndpointsBatch\<close>. The result holds the database and the map with the
  endpoints as the loop leaves them.
\<close>

fun updateEndpointsFromMap ::
  "SpecEnv \<Rightarrow> DB \<Rightarrow> EndpointsRecord \<Rightarrow> error + DB \<times> EndpointsRecord" where
  "updateEndpointsFromMap env db [] = Inr (db, [])"
| "updateEndpointsFromMap env db ((k, item) # rest) =
     (let endpoint' = (em_endpoint item)\<lparr>ep_riskScore := Some NONE\<rparr>;
          db1 = save_endpoint db endpoint';
          similarEndpointUuids = map (\<lambda>e. ep_uuid e) (map snd (em_similarEndpoints item))
      in
      bind_err (if similarEndpointUuids \<noteq> [] then deleteEndpointsBatch env db1 similarEndpointUuids
                else Inr db1)
        (\<lambda>db2. bind_err (updateEndpointsFromMap env db2 rest)
                  (\<lambda>(db3, rest'). Inr (db3, (k, item\<lparr>em_endpoint := endpoint'\<rparr>) # rest'))))"

section \<open>Notions used in the statements\<close>

text \<open>
  The rank of a risk score for the statement of the merge: the order of
  \<^verbatim>\<open>RISK_SCORE_ORDER\<close>, with a missing score below every score.
\<close>

definition risk_rank :: "RiskScore option \<Rightarrow> nat" where
  "risk_rank r = (case r of None \<Rightarrow> 0 | Some s \<Rightarrow> Suc (RISK_SCORE_ORDER s))"

text \<open>The survivor and the identities it supersedes.\<close>

definition merged_set :: "EndpointsMap \<Rightarrow> ApiEndpoint list" where
  "merged_set item = em_endpoint item # map snd (em_similarEndpoints item)"

text \<open>The uuids an entry of the batch map supersedes.\<close>

definition superseded_uuids :: "EndpointsMap \<Rightarrow> string list" where
  "superseded_uuids item = map (\<lambda>e. ep_uuid e) (map snd (em_similarEndpoints item))"

text \<open>
  What holds of the batch map throughout the resolution: an entry is keyed by the
  uuid of its endpoint, the keys are pairwise different, what an entry supersedes
  is stored in the database, and an entry that supersedes something is one that
  the batch has created.
\<close>

definition entry_ok :: "SpecEnv \<Rightarrow> DB \<Rightarrow> string \<Rightarrow> EndpointsMap \<Rightarrow> bool" where
  "entry_ok env db k entry =
     (ep_uuid (em_endpoint entry) = k \<and>
      set (superseded_uuids entry) \<subseteq> set (map (\<lambda>e. ep_uuid e) (db_endpoints db)) \<and>
      (em_similarEndpoints entry \<noteq> [] \<longrightarrow> k \<in> range (uuidv4 env)))"

definition batch_ok :: "SpecEnv \<Rightarrow> DB \<Rightarrow> EndpointsRecord \<Rightarrow> bool" where
  "batch_ok env db endpointsMap =
     (distinct (map fst endpointsMap) \<and>
      (\<forall>kv\<in>set endpointsMap. entry_ok env db (fst kv) (snd kv)))"

text \<open>
  The dates of an endpoint are in order: both missing, or both present with
  \<open>firstDetected\<close> not after \<open>lastActive\<close>.
\<close>

definition dates_in_order :: "ApiEndpoint \<Rightarrow> bool" where
  "dates_in_order e =
     (case ep_firstDetected e of
        None \<Rightarrow> ep_lastActive e = None
      | Some f \<Rightarrow> (case ep_lastActive e of None \<Rightarrow> False | Some l \<Rightarrow> f \<le> l))"

text \<open>The earliest and the latest of the dates that are present, if any is.\<close>

definition present :: "int option list \<Rightarrow> int list" where
  "present ds = concat (map (\<lambda>d. case d of None \<Rightarrow> [] | Some t \<Rightarrow> [t]) ds)"

definition earliest :: "int option list \<Rightarrow> int option" where
  "earliest ds = (if present ds = [] then None else Some (Min (set (present ds))))"

definition latest :: "int option list \<Rightarrow> int option" where
  "latest ds = (if present ds = [] then None else Some (Max (set (present ds))))"

text \<open>The methods \<^verbatim>\<open>uploadNewSpec\<close> visits under one path of the spec.\<close>

definition methods_of :: "SpecEnv \<Rightarrow> JSONValue \<Rightarrow> string \<Rightarrow> string list" where
  "methods_of env paths path' =
     (case object_keys (map_of (entries paths) path') of
        Inl _ \<Rightarrow> []
      | Inr keys \<Rightarrow> filter (\<lambda>key. toUpperCase key \<in> set (restMethods env)) keys)"

fun is_conflict :: "error \<Rightarrow> bool" where
  "is_conflict (Error409Conflict _) = True"
| "is_conflict _ = False"

text \<open>
  What \<^verbatim>\<open>counterMap[pos]\<close> holds for a token as its own slot, and the slot of a
  token counted \<open>n\<close> times.
\<close>

definition slot_at :: "CounterMap \<Rightarrow> nat \<Rightarrow> string \<Rightarrow> slot option" where
  "slot_at counterMap pos token =
     (case counterMap pos of None \<Rightarrow> None | Some m \<Rightarrow> m token)"

definition slot_of_count :: "string \<Rightarrow> nat \<Rightarrow> slot option" where
  "slot_of_count token n =
     (if n = 0 then None else if inherited token then Some NonNumeric else Some (Count n))"

text \<open>
  The average occurrence fraction of the tokens of a trace, and the confidence of
  a template: the maximum of that average over the traces of the sample that
  generalize to it.
\<close>

fun fraction_sum :: "(nat \<Rightarrow> string \<Rightarrow> rat) \<Rightarrow> string list \<Rightarrow> nat \<Rightarrow> rat" where
  "fraction_sum f [] i = 0"
| "fraction_sum f (token # rest) i = f i token + fraction_sum f rest (i + 1)"

definition average_fraction :: "Utils \<Rightarrow> ApiTrace list \<Rightarrow> ApiTrace \<Rightarrow> rat" where
  "average_fraction u traces t =
     fraction_sum (occurrenceFraction u traces) (getPathTokens u (tr_path t)) 0
       / of_nat (length (getPathTokens u (tr_path t)))"

definition template_confidence :: "Utils \<Rightarrow> ApiTrace list \<Rightarrow> string \<Rightarrow> rat" where
  "template_confidence u traces k =
     Max (set (map (average_fraction u traces) (filter (\<lambda>t. template u traces t = k) traces)))"

section \<open>Concrete path utilities\<close>

text \<open>
  Modelled from the spec: \<^verbatim>\<open>getPathTokens\<close>, \<^verbatim>\<open>isParameter\<close>, \<^verbatim>\<open>getPathRegex\<close>,
  \<^verbatim>\<open>getValidPath\<close> and the count behind \<^verbatim>\<open>numberParams\<close> are not among the sources.
  The specification, section 4.1: \<open>tokenize\<close> splits a path on the path separator;
  a segment is a parameter iff it begins with \<open>{\<close> and ends with \<open>}\<close>; a
  compiled pattern matches a literal path of the same segment depth in which each
  parameter segment stands for any non-empty segment; section 3:
  \<open>numberOfParameterSegments\<close> counts the placeholder segments. These definitions
  give the parameters of type \<open>Utils\<close> a value in concrete instances; the general
  theorems hold for every value of the parameters.
\<close>

fun split_on :: "char \<Rightarrow> string \<Rightarrow> string list" where
  "split_on sep [] = [[]]"
| "split_on sep (c # cs) =
     (if c = sep then [] # split_on sep cs
      else (case split_on sep cs of
              [] \<Rightarrow> [[c]]
            | w # ws \<Rightarrow> (c # w) # ws))"

definition tokenize :: "string \<Rightarrow> string list" where
  "tokenize path = filter (\<lambda>t. t \<noteq> []) (split_on CHR ''/'' path)"

definition isParameterToken :: "string \<Rightarrow> bool" where
  "isParameterToken segment = (segment \<noteq> [] \<and> hd segment = CHR ''{'' \<and> last segment = CHR ''}'')"

definition numberOfParameterSegments :: "string \<Rightarrow> nat" where
  "numberOfParameterSegments path = length (filter isParameterToken (tokenize path))"

fun tokens_match :: "string list \<Rightarrow> string list \<Rightarrow> bool" where
  "tokens_match [] [] = True"
| "tokens_match (p # ps) (t # ts) = ((isParameterToken p \<or> p = t) \<and> tokens_match ps ts)"
| "tokens_match _ _ = False"

text \<open>The compiled pattern of a template is represented by the template itself.\<close>

definition pattern_matches :: "string \<Rightarrow> string \<Rightarrow> bool" where
  "pattern_matches text pattern = tokens_match (tokenize pattern) (tokenize text)"

definition validate_path :: "string option \<Rightarrow> nat option \<Rightarrow> ValidPath" where
  "validate_path path numTokens =
     (case path of
        None \<Rightarrow> \<lparr> isValid = False, vp_path = [], errMsg = ''No path provided.'' \<rparr>
      | Some p \<Rightarrow>
          if tokenize p = [] \<or> concat (map (\<lambda>t. CHR ''/'' # t) (tokenize p)) \<noteq> p
          then \<lparr> isValid = False, vp_path = [], errMsg = ''Malformed path.'' \<rparr>
          else if (case numTokens of None \<Rightarrow> False | Some n \<Rightarrow> length (tokenize p) \<noteq> n)
          then \<lparr> isValid = False, vp_path = [], errMsg = ''Wrong number of segments.'' \<rparr>
          else \<lparr> isValid = True, vp_path = p, errMsg = [] \<rparr>)"

definition utils0 :: Utils where
  "utils0 = \<lparr> getPathTokens = tokenize,
              getValidPath = validate_path,
              getPathRegex = (\<lambda>path. path),
              isParameter = isParameterToken,
              numberParamsOf = numberOfParameterSegments,
              regexMatch = pattern_matches \<rparr>"


section \<open>Concrete instances\<close>

text \<open>Values for the parameters and small inputs, on which the theorems are run.\<close>

definition log_env0 :: LogEnv where
  "log_env0 = \<lparr> redactBlockedFields = (\<lambda>ctx t. Inr t),
                setSessionMetadata = (\<lambda>ctx t. Inr t),
                now = 0 \<rparr>"

definition trace_params :: "string option \<Rightarrow> TraceParams" where
  "trace_params p =
     \<lparr> tp_path = p, tp_method = Some ''GET'', tp_host = Some ''api.test'',
       tp_parameters = None, tp_requestHeaders = None, tp_requestBody = None,
       tp_responseHeaders = None, tp_responseBody = None,
       tp_responseStatus = Some 200, tp_meta = None \<rparr>"

definition queued :: "string \<Rightarrow> MetloContext \<times> QueuedApiTrace" where
  "queued p = (''{}'', apiTraceObj log_env0 (trace_params (Some p)) p)"

definition redis_with :: "nat \<Rightarrow> error option \<Rightarrow> Redis" where
  "redis_with n fault =
     \<lparr> TRACES_QUEUE = replicate n (queued ''/old''), llen_fault = fault, rpush_fault = None \<rparr>"

definition diff_env0 :: "OpenApiSpec option \<Rightarrow> DiffEnv" where
  "diff_env0 found =
     \<lparr> findOneBy = (\<lambda>name. Inr found),
       getBlockFieldsEntry = (\<lambda>t. Inr None),
       yaml_load = (\<lambda>s. if s = ''openapi: 3.0.0'' then Inr (JObj [(''openapi'', JStr ''3.0.0'')])
                          else Inl (Thrown None ''YAMLException: bad indentation of a mapping entry'')),
       dereference = (\<lambda>v. Inr v),
       pathLookup = (\<lambda>v e. Inr None),
       getSpecRequestParameters = (\<lambda>v e. Inr (Some \<lparr> sv_path = [], sv_value = JArr [] \<rparr>)),
       getSpecRequestBody = (\<lambda>v e. Inr (Some \<lparr> sv_path = [], sv_value = JNull \<rparr>)),
       getSpecResponses = (\<lambda>v e. Inr (Some \<lparr> sv_path = [], sv_value = JObj [] \<rparr>)),
       parsedJsonNonNull = (\<lambda>s b. Inr (JStr s)),
       parsePathParameter = (\<lambda>s. Inr (case s of None \<Rightarrow> JNull | Some t \<Rightarrow> JStr t)),
       newRequestValidator = (\<lambda>p b s. Inr ()),
       validateRequest = (\<lambda>p b s r. Inr []),
       newResponseValidator = (\<lambda>c r. Inr ()),
       validateResponse = (\<lambda>c r st b h. Inr [''must have required property id'']),
       generateAlertMessageFromReqErrors = (\<lambda>errs p1 p2 v d. Inr (map (\<lambda>e. (e, p1)) errs)),
       generateAlertMessageFromRespErrors = (\<lambda>errs p d. Inr (map (\<lambda>e. (e, [])) errs)),
       createSpecDiffAlerts =
         (\<lambda>items uuid t s.
            Inr (map (\<lambda>kv. \<lparr> al_uuid = ''a'', al_type = OPEN_API_SPEC_DIFF,
                              al_apiEndpointUuid = uuid, al_description = fst kv \<rparr>) items)) \<rparr>"

definition spec_doc :: "string \<Rightarrow> string \<Rightarrow> bool \<Rightarrow> OpenApiSpec" where
  "spec_doc name text auto =
     \<lparr> spec_name = name, spec_spec = text, spec_isAutoGenerated = auto, spec_extension = YAML,
       spec_createdAt = 0, spec_updatedAt = 0, spec_specUpdatedAt = 0, spec_hosts = [] \<rparr>"

definition stored_endpoint ::
  "string \<Rightarrow> string \<Rightarrow> string option \<Rightarrow> RiskScore option \<Rightarrow> int option \<Rightarrow> int option \<Rightarrow> ApiEndpoint" where
  "stored_endpoint uuid path' specName risk first last' =
     \<lparr> ep_uuid = uuid, ep_path = path', ep_pathRegex = path', ep_method = ''GET'',
       ep_host = ''api.test'', ep_numberParams = numberOfParameterSegments path',
       ep_openapiSpecName = specName, ep_openapiSpec = None, ep_riskScore = risk,
       ep_firstDetected = first, ep_lastActive = last' \<rparr>"

definition sample_trace :: "string \<Rightarrow> ApiTrace" where
  "sample_trace p =
     \<lparr> tr_uuid = ''t'', tr_path = p, tr_apiEndpointUuid = ''e1'', tr_createdAt = 0,
       tr_requestHeaders = [], tr_requestParameters = [], tr_requestBody = [],
       tr_responseStatus = 200, tr_responseHeaders = [], tr_responseBody = [] \<rparr>"

definition delete_endpoints_batch :: "DB \<Rightarrow> string list \<Rightarrow> DB" where
  "delete_endpoints_batch db uuids =
     db\<lparr>db_endpoints := filter (\<lambda>e. ep_uuid e \<notin> set uuids) (db_endpoints db),
        db_traces := filter (\<lambda>t. tr_apiEndpointUuid t \<notin> set uuids) (db_traces db),
        db_dataFields := filter (\<lambda>d. df_apiEndpointUuid d \<notin> set uuids) (db_dataFields db),
        db_alerts := filter (\<lambda>a. al_apiEndpointUuid a \<notin> set uuids) (db_alerts db),
        db_aggregates := filter (\<lambda>g. ag_apiEndpointUuid g \<notin> set uuids) (db_aggregates db)\<rparr>"

definition spec_env0 :: SpecEnv where
  "spec_env0 =
     \<lparr> getOpenAPISpecVersion =
         (\<lambda>v. if map_of (entries v) ''openapi'' \<noteq> None then Some 3
               else if map_of (entries v) ''swagger'' \<noteq> None then Some 2 else None),
       validateSpecSchema = (\<lambda>v n. []),
       convertObj = (\<lambda>v. Inr (Some v)),
       yaml_toString = (\<lambda>v. ''converted''),
       json_stringify = (\<lambda>v. ''converted''),
       getServersV3 =
         (\<lambda>v p m. case map_of (entries v) ''servers'' of Some (JArr xs) \<Rightarrow> xs | _ \<Rightarrow> []),
       getHostsV3 = (\<lambda>servers. concat (map (\<lambda>s. case s of JStr h \<Rightarrow> [h] | _ \<Rightarrow> []) servers)),
       uuidv4 = (\<lambda>n. ''new-'' @ string_of_nat n),
       currTime = 100,
       restMethods = [''GET'', ''HEAD'', ''POST'', ''PUT'', ''PATCH'', ''DELETE'', ''OPTIONS'',
                      ''TRACE'', ''CONNECT''],
       insertDataFieldQuery = (\<lambda>db ids target. Inr (db_dataFields db)),
       insertAggregateHourlyQuery = (\<lambda>db target ids. Inr (db_aggregates db)),
       deleteEndpointsBatch = (\<lambda>db ids. Inr (delete_endpoints_batch db ids)) \<rparr>"

definition db_of :: "OpenApiSpec list \<Rightarrow> ApiEndpoint list \<Rightarrow> ApiTrace list \<Rightarrow> DB" where
  "db_of specs endpoints traces =
     \<lparr> db_specs = specs, db_endpoints = endpoints, db_traces = traces, db_dataFields = [],
       db_alerts = [], db_aggregates = [] \<rparr>"

definition candidate :: "string \<Rightarrow> string \<Rightarrow> ApiEndpoint" where
  "candidate uuid path' = stored_endpoint uuid path' None None None None"

definition stored_c :: ApiEndpoint where
  "stored_c = stored_endpoint ''i1'' ''/a/{p}/c'' None (Some HIGH) (Some 5) (Some 9)"

definition batch_after_first :: EndpointsRecord where
  "batch_after_first =
     [(''new-0'', \<lparr> em_endpoint = candidate ''new-0'' ''/a/{x}/c'',
                    em_similarEndpoints = [(''i1'', stored_c)] \<rparr>),
      (''new-1'', \<lparr> em_endpoint = candidate ''new-1'' ''/a/b/c'', em_similarEndpoints = [] \<rparr>)]"

definition stored_d :: ApiEndpoint where
  "stored_d = stored_endpoint ''i2'' ''/a/b/{q}'' None (Some LOW) (Some 3) (Some 7)"

definition stored_u :: ApiEndpoint where
  "stored_u = stored_endpoint ''i3'' ''/a/b/c'' None (Some MEDIUM) None None"

definition petstore_doc :: "string list \<Rightarrow> OpenApiSpec" where
  "petstore_doc hosts =
     \<lparr> spec_name = ''petstore'', spec_spec = ''s'', spec_isAutoGenerated = False,
       spec_extension = YAML, spec_createdAt = 100, spec_updatedAt = 100,
       spec_specUpdatedAt = 100, spec_hosts = hosts \<rparr>"

definition survivor_item :: EndpointsMap where
  "survivor_item =
     \<lparr> em_endpoint = (candidate ''new-0'' ''/a/{x}/{y}'')\<lparr>ep_openapiSpec := Some (petstore_doc [])\<rparr>,
       em_similarEndpoints = [(''i1'', stored_c), (''i2'', stored_d), (''i3'', stored_u)] \<rparr>"

definition orders_db :: DB where
  "orders_db =
     db_of [spec_doc ''orders-v1'' ''openapi: 3.0.0'' False]
       [stored_endpoint ''i1'' ''/orders/{id}'' (Some ''orders-v1'') (Some HIGH) (Some 5) (Some 9)]
       []"

definition uploaded_paths :: JSONValue where
  "uploaded_paths =
     JObj [(''/users/{id}'', JObj [(''get'', JObj [])]),
           (''/orders/{id}'', JObj [(''get'', JObj []), (''summary'', JStr ''Orders'')])]"

definition uploaded_spec :: JSONValue where
  "uploaded_spec =
     JObj [(''openapi'', JStr ''3.0.0''), (''servers'', JArr [JStr ''api.test'']),
           (''paths'', uploaded_paths)]"

definition sample10 :: "ApiTrace list" where
  "sample10 = replicate 9 (sample_trace ''/items/list'') @ [sample_trace ''/items/42'']"

definition sample_constructor :: "ApiTrace list" where
  "sample_constructor = replicate 3 (sample_trace ''/constructor'')"

definition sample_ranked :: "ApiTrace list" where
  "sample_ranked =
     [sample_trace ''/x'', sample_trace ''/constructor'', sample_trace ''/y'', sample_trace ''/y'']"

definition spec_of_paths :: "string list \<Rightarrow> JSONValue" where
  "spec_of_paths ps =
     JObj [(''openapi'', JStr ''3.0.0''), (''servers'', JArr [JStr ''api.test'']),
           (''paths'', JObj (map (\<lambda>p. (p, JObj [(''get'', JObj [])])) ps))]"

definition users_db :: DB where
  "users_db = db_of [] [stored_endpoint ''i1'' ''/users/123'' None (Some LOW) None None] []"

definition merge_db :: DB where
  "merge_db = db_of [] [stored_c, stored_d, stored_u] []"

definition merged_row :: ApiEndpoint where
  "merged_row =
     stored_endpoint ''new-0'' ''/a/{x}/{y}'' (Some ''petstore'') (Some HIGH) (Some 3) (Some 9)"

definition stored_backwards :: ApiEndpoint where
  "stored_backwards = stored_endpoint ''i4'' ''/b/c'' None (Some LOW) (Some 5) (Some 3)"


section \<open>Backpressure and batches of \<^verbatim>\<open>logRequest\<close>\<close>

text \<open>
  Claim C7. While the length query reports more than 1000 pending traces,
  \<^verbatim>\<open>logRequest\<close> returns normally, raises nothing and leaves the queue as it was:
  the trace is dropped silently. (The length the code sees is the answer of the
  query; the case of a failing query is claim C9.)
\<close>

theorem logRequest_drops_over_1000:
  assumes "llen_fault r = None" and "length (TRACES_QUEUE r) > 1000"
  shows "logRequest u env ctx traceParams r = (Inr (), r)"
  using assms by (simp add: logRequest_def logRequest_try_def llen_def)

theorem logRequest_drops_over_1000_witness:
  "llen_fault (redis_with 1001 None) = None \<and>
   length (TRACES_QUEUE (redis_with 1001 None)) > 1000 \<and>
   logRequest utils0 log_env0 ''{}'' (trace_params (Some ''/a'')) (redis_with 1001 None) =
     (Inr (), redis_with 1001 None)"
  using logRequest_drops_over_1000
          [of "redis_with 1001 None" utils0 log_env0 "''{}''" "trace_params (Some ''/a'')"]
  by (simp add: redis_with_def)



lemma logRequestBatch_append:
  "logRequestBatch u env ctx (xs @ ys) r =
     (case logRequestBatch u env ctx xs r of
        (Inl err, r') \<Rightarrow> (Inl err, r')
      | (Inr _, r') \<Rightarrow> logRequestBatch u env ctx ys r')"
  by (induction xs arbitrary: r) (auto split: prod.splits sum.splits)

lemma logRequest_try_error_keeps_queue:
  "logRequest_try u env ctx t r = (Inl e, r') \<Longrightarrow> r' = r"
  by (auto simp: logRequest_try_def Let_def split: if_splits sum.splits)

text \<open>
  Claim C10. \<^verbatim>\<open>logRequestBatch\<close> handles its traces in order. When the traces before
  \<open>t\<close> have been handled without error and \<open>t\<close> fails with an error whose code is
  below 500 (an invalid path, for one), the batch ends with that very error; the
  queue is the one the earlier traces left, so they stay enqueued and none of the
  later traces is logged.
\<close>

theorem logRequestBatch_stops_at_client_error:
  assumes "logRequestBatch u env ctx earlier r = (Inr (), r1)"
      and "logRequest_try u env ctx t r1 = (Inl err, r2)"
      and "code_below_500 err"
  shows "logRequestBatch u env ctx (earlier @ t # later) r = (Inl err, r1)"
  using assms logRequest_try_error_keeps_queue [OF assms(2)]
  by (simp add: logRequestBatch_append logRequest_def)

theorem logRequestBatch_stops_at_client_error_witness:
  "logRequestBatch utils0 log_env0 ''{}'' [trace_params (Some ''/a'')] (redis_with 0 None) =
     (Inr (), (redis_with 0 None)\<lparr>TRACES_QUEUE := [queued ''/a'']\<rparr>) \<and>
   logRequest_try utils0 log_env0 ''{}'' (trace_params None)
       ((redis_with 0 None)\<lparr>TRACES_QUEUE := [queued ''/a'']\<rparr>) =
     (Inl (Error400BadRequest ''Invalid path undefined: No path provided.''),
      (redis_with 0 None)\<lparr>TRACES_QUEUE := [queued ''/a'']\<rparr>) \<and>
   code_below_500 (Error400BadRequest ''Invalid path undefined: No path provided.'') \<and>
   logRequestBatch utils0 log_env0 ''{}''
       ([trace_params (Some ''/a'')] @ trace_params None # [trace_params (Some ''/b'')])
       (redis_with 0 None) =
     (Inl (Error400BadRequest ''Invalid path undefined: No path provided.''),
      (redis_with 0 None)\<lparr>TRACES_QUEUE := [queued ''/a'']\<rparr>)"
proof -
  let ?r1 = "(redis_with 0 None)\<lparr>TRACES_QUEUE := [queued ''/a'']\<rparr>"
  let ?e = "Error400BadRequest ''Invalid path undefined: No path provided.''"
  have tok: "tokenize ''/a'' = [''a'']"
    by (simp add: tokenize_def)
  have a: "logRequestBatch utils0 log_env0 ''{}'' [trace_params (Some ''/a'')] (redis_with 0 None)
             = (Inr (), ?r1)"
    by (simp add: logRequest_def logRequest_try_def llen_def rpush_def redis_with_def
          utils0_def validate_path_def trace_params_def tok log_env0_def queued_def)
  have b: "logRequest_try utils0 log_env0 ''{}'' (trace_params None) ?r1 = (Inl ?e, ?r1)"
    by (simp add: logRequest_try_def llen_def redis_with_def utils0_def validate_path_def
          trace_params_def or_undefined_def)
  have c: "code_below_500 ?e"
    by (simp add: code_below_500_def)
  from logRequestBatch_stops_at_client_error [OF a b c, of "[trace_params (Some ''/b'')]"] a b c
  show ?thesis by simp
qed

section \<open>\<^verbatim>\<open>findOpenApiSpecDiff\<close> raises nothing\<close>

text \<open>
  Claim C8. \<^verbatim>\<open>findOpenApiSpecDiff\<close> always returns a list of alerts and never an
  error. The list is empty when the lookup of the endpoint's spec finds none,
  when the spec found is auto-generated, and whenever any step of the diff (the
  lookup, the YAML parser, the dereferencing, a validator, the alert service)
  throws.
\<close>

theorem findOpenApiSpecDiff_never_throws:
  "(\<exists>alerts. findOpenApiSpecDiff u env trace endpoint = Inr alerts)
   \<and> (findOneBy env (ep_openapiSpecName endpoint) = Inr None \<longrightarrow>
        findOpenApiSpecDiff u env trace endpoint = Inr [])
   \<and> (\<forall>s. findOneBy env (ep_openapiSpecName endpoint) = Inr (Some s) \<and> spec_isAutoGenerated s \<longrightarrow>
        findOpenApiSpecDiff u env trace endpoint = Inr [])
   \<and> (\<forall>err. findOpenApiSpecDiff_try u env trace endpoint = Inl err \<longrightarrow>
        findOpenApiSpecDiff u env trace endpoint = Inr [])"
proof (intro conjI allI impI)
  show "\<exists>alerts. findOpenApiSpecDiff u env trace endpoint = Inr alerts"
    by (cases "findOpenApiSpecDiff_try u env trace endpoint") (simp_all add: findOpenApiSpecDiff_def)
next
  assume "findOneBy env (ep_openapiSpecName endpoint) = Inr None"
  then show "findOpenApiSpecDiff u env trace endpoint = Inr []"
    by (simp add: findOpenApiSpecDiff_def findOpenApiSpecDiff_try_def bind_err_def)
next
  fix s
  assume "findOneBy env (ep_openapiSpecName endpoint) = Inr (Some s) \<and> spec_isAutoGenerated s"
  then show "findOpenApiSpecDiff u env trace endpoint = Inr []"
    by (simp add: findOpenApiSpecDiff_def findOpenApiSpecDiff_try_def bind_err_def)
next
  fix err
  assume "findOpenApiSpecDiff_try u env trace endpoint = Inl err"
  then show "findOpenApiSpecDiff u env trace endpoint = Inr []"
    by (simp add: findOpenApiSpecDiff_def)
qed

theorem findOpenApiSpecDiff_never_throws_witness:
  "findOpenApiSpecDiff utils0 (diff_env0 None) (sample_trace ''/users/1'')
     (stored_endpoint ''e1'' ''/users/{id}'' None None None None) = Inr []
   \<and> findOpenApiSpecDiff utils0 (diff_env0 (Some (spec_doc ''auto'' ''openapi: 3.0.0'' True)))
       (sample_trace ''/users/1'')
       (stored_endpoint ''e1'' ''/users/{id}'' (Some ''auto'') None None None) = Inr []
   \<and> findOpenApiSpecDiff_try utils0 (diff_env0 (Some (spec_doc ''s'' ''openapi 3.0.0'' False)))
       (sample_trace ''/users/1'')
       (stored_endpoint ''e1'' ''/users/{id}'' (Some ''s'') None None None)
       = Inl (Thrown None ''YAMLException: bad indentation of a mapping entry'')
   \<and> findOpenApiSpecDiff utils0 (diff_env0 (Some (spec_doc ''s'' ''openapi 3.0.0'' False)))
       (sample_trace ''/users/1'')
       (stored_endpoint ''e1'' ''/users/{id}'' (Some ''s'') None None None) = Inr []"
proof -
  let ?t = "sample_trace ''/users/1''"
  let ?bad = "diff_env0 (Some (spec_doc ''s'' ''openapi 3.0.0'' False))"
  let ?e = "stored_endpoint ''e1'' ''/users/{id}'' (Some ''s'') None None None"
  have a: "findOneBy (diff_env0 None)
             (ep_openapiSpecName (stored_endpoint ''e1'' ''/users/{id}'' None None None None)) = Inr None"
    by (simp add: diff_env0_def)
  have b: "findOneBy (diff_env0 (Some (spec_doc ''auto'' ''openapi: 3.0.0'' True)))
             (ep_openapiSpecName (stored_endpoint ''e1'' ''/users/{id}'' (Some ''auto'') None None None))
             = Inr (Some (spec_doc ''auto'' ''openapi: 3.0.0'' True))
           \<and> spec_isAutoGenerated (spec_doc ''auto'' ''openapi: 3.0.0'' True)"
    by (simp add: diff_env0_def spec_doc_def)
  have c: "findOpenApiSpecDiff_try utils0 ?bad ?t ?e
             = Inl (Thrown None ''YAMLException: bad indentation of a mapping entry'')"
    by (simp add: findOpenApiSpecDiff_try_def bind_err_def diff_env0_def spec_doc_def)
  from findOpenApiSpecDiff_never_throws
         [of utils0 "diff_env0 None" ?t "stored_endpoint ''e1'' ''/users/{id}'' None None None None"]
       findOpenApiSpecDiff_never_throws
         [of utils0 "diff_env0 (Some (spec_doc ''auto'' ''openapi: 3.0.0'' True))" ?t
             "stored_endpoint ''e1'' ''/users/{id}'' (Some ''auto'') None None None"]
       findOpenApiSpecDiff_never_throws [of utils0 ?bad ?t ?e]
       a b c
  show ?thesis by blast
qed

section \<open>The tie-break between candidates\<close>

lemma map_of_assign: "map_of (assign kvs k v) = (map_of kvs)(k \<mapsto> v)"
  by (induction kvs k v rule: assign.induct) auto

lemma keys_assign:
  "map fst (assign kvs k v) = (if k \<in> fst ` set kvs then map fst kvs else map fst kvs @ [k])"
  by (induction kvs k v rule: assign.induct) auto

lemma key_set_assign: "fst ` set (assign kvs k v) = insert k (fst ` set kvs)"
  by (induction kvs k v rule: assign.induct) auto

lemma keys_assign_present:
  "k \<in> fst ` set kvs \<Longrightarrow> map fst (assign kvs k v) = map fst kvs"
  by (induction kvs k v rule: assign.induct) auto

lemma map_of_delete_key: "map_of (delete_key kvs k) k = None"
  by (induction kvs) (auto simp: delete_key_def)

lemma release_loop_no_holder:
  "\<forall>k\<in>set ks. \<forall>entry. map_of m k = Some entry \<longrightarrow>
      map_of (em_similarEndpoints entry) (ep_uuid item) = None
   \<Longrightarrow> release_loop apiEndpoint item ks (m, ex) = (m, ex)"
  by (induction ks) (auto split: option.splits)

lemma release_loop_single_holder:
  assumes "distinct ks" and "U \<in> set ks" and "map_of m U = Some eU"
      and "map_of (em_similarEndpoints eU) (ep_uuid item) \<noteq> None"
      and "\<forall>k\<in>set ks. k \<noteq> U \<longrightarrow> (\<forall>entry. map_of m k = Some entry \<longrightarrow>
              map_of (em_similarEndpoints entry) (ep_uuid item) = None)"
  shows "release_loop apiEndpoint item ks (m, ex) =
           (if ep_numberParams apiEndpoint = ep_numberParams item \<or>
               (ep_numberParams (em_endpoint eU) \<noteq> ep_numberParams item \<and>
                ep_numberParams apiEndpoint < ep_numberParams (em_endpoint eU))
            then (assign m U (eU\<lparr>em_similarEndpoints :=
                                   delete_key (em_similarEndpoints eU) (ep_uuid item)\<rparr>), False)
            else (m, True))"
  using assms
proof (induction ks arbitrary: ex)
  case Nil
  then show ?case by simp
next
  case (Cons k ks)
  show ?case
  proof (cases "k = U")
    case True
    then have notin: "U \<notin> set ks" using Cons.prems(1) by simp
    let ?m' = "assign m U (eU\<lparr>em_similarEndpoints :=
                                   delete_key (em_similarEndpoints eU) (ep_uuid item)\<rparr>)"
    have rest: "\<forall>k\<in>set ks. \<forall>entry. map_of m k = Some entry \<longrightarrow>
                  map_of (em_similarEndpoints entry) (ep_uuid item) = None"
      using Cons.prems(5) notin by auto
    have rest': "\<forall>k\<in>set ks. \<forall>entry. map_of ?m' k = Some entry \<longrightarrow>
                  map_of (em_similarEndpoints entry) (ep_uuid item) = None"
      using rest notin by (auto simp: map_of_assign)
    show ?thesis
      using True Cons.prems(3,4) release_loop_no_holder [OF rest] release_loop_no_holder [OF rest']
      by simp
  next
    case False
    then have "U \<in> set ks" using Cons.prems(2) by simp
    moreover have "distinct ks" using Cons.prems(1) by simp
    moreover have "\<forall>k\<in>set ks. k \<noteq> U \<longrightarrow> (\<forall>entry. map_of m k = Some entry \<longrightarrow>
              map_of (em_similarEndpoints entry) (ep_uuid item) = None)"
      using Cons.prems(5) by simp
    ultimately have IH: "release_loop apiEndpoint item ks (m, ex) =
           (if ep_numberParams apiEndpoint = ep_numberParams item \<or>
               (ep_numberParams (em_endpoint eU) \<noteq> ep_numberParams item \<and>
                ep_numberParams apiEndpoint < ep_numberParams (em_endpoint eU))
            then (assign m U (eU\<lparr>em_similarEndpoints :=
                                   delete_key (em_similarEndpoints eU) (ep_uuid item)\<rparr>), False)
            else (m, True))"
      using Cons.IH [of ex] Cons.prems(3,4) by blast
    have "\<forall>entry. map_of m k = Some entry \<longrightarrow>
              map_of (em_similarEndpoints entry) (ep_uuid item) = None"
      using Cons.prems(5) False by simp
    then show ?thesis using IH by (auto split: option.splits)
  qed
qed

lemma holders_single:
  assumes "distinct (map fst m)" and "map_of m a = Some ea"
      and "map_of (em_similarEndpoints ea) i \<noteq> None"
      and "\<forall>k entry. k \<noteq> a \<and> map_of m k = Some entry \<longrightarrow> map_of (em_similarEndpoints entry) i = None"
  shows "holders m i = [a]"
  using assms
proof (induction m)
  case Nil
  then show ?case by simp
next
  case (Cons kv m)
  obtain k e where kv: "kv = (k, e)" by (cases kv)
  show ?case
  proof (cases "k = a")
    case True
    then have e: "e = ea" using Cons.prems(2) kv by simp
    have "\<forall>kv'\<in>set m. map_of (em_similarEndpoints (snd kv')) i = None"
    proof
      fix kv' assume in_m: "kv' \<in> set m"
      then have "fst kv' \<noteq> a" using Cons.prems(1) kv True by force
      moreover have "map_of (kv # m) (fst kv') = Some (snd kv')"
        using in_m Cons.prems(1) kv by (cases kv') (auto simp: rev_image_eqI)
      ultimately show "map_of (em_similarEndpoints (snd kv')) i = None"
        using Cons.prems(4) by blast
    qed
    then have "filter (\<lambda>kv. map_of (em_similarEndpoints (snd kv)) i \<noteq> None) m = []"
      by (simp add: filter_empty_conv)
    then show ?thesis using kv True e Cons.prems(3) by (simp add: holders_def)
  next
    case False
    have "map_of (kv # m) k = Some e" using kv by simp
    then have not_held: "map_of (em_similarEndpoints e) i = None"
      using Cons.prems(4) False by blast
    have "holders m i = [a]"
    proof (rule Cons.IH)
      show "distinct (map fst m)" using Cons.prems(1) by simp
      show "map_of m a = Some ea" using Cons.prems(2) kv False by simp
      show "map_of (em_similarEndpoints ea) i \<noteq> None" by (rule Cons.prems(3))
      show "\<forall>k' entry. k' \<noteq> a \<and> map_of m k' = Some entry \<longrightarrow>
              map_of (em_similarEndpoints entry) i = None"
      proof (intro allI impI)
        fix k' entry assume h: "k' \<noteq> a \<and> map_of m k' = Some entry"
        then have "k' \<noteq> k" using Cons.prems(1) kv by (auto dest: map_of_SomeD simp: rev_image_eqI)
        then have "map_of (kv # m) k' = Some entry" using h kv by simp
        then show "map_of (em_similarEndpoints entry) i = None" using Cons.prems(4) h by blast
      qed
    qed
    then show ?thesis using kv not_held by (simp add: holders_def)
  qed
qed

lemma holders_singleD:
  assumes "distinct (map fst m)" and "holders m i = [a]"
  shows "\<exists>ea. map_of m a = Some ea \<and> map_of (em_similarEndpoints ea) i \<noteq> None \<and>
           (\<forall>k entry. k \<noteq> a \<and> map_of m k = Some entry \<longrightarrow>
              map_of (em_similarEndpoints entry) i = None)"
proof -
  let ?P = "\<lambda>kv. map_of (em_similarEndpoints (snd kv)) i \<noteq> None"
  have "a \<in> set (map fst (filter ?P m))" using assms(2) by (simp add: holders_def)
  then obtain ea where in_m: "(a, ea) \<in> set m" and held: "?P (a, ea)" by auto
  have ma: "map_of m a = Some ea" using in_m assms(1) by simp
  have "\<forall>k entry. k \<noteq> a \<and> map_of m k = Some entry \<longrightarrow> map_of (em_similarEndpoints entry) i = None"
  proof (intro allI impI, rule ccontr)
    fix k entry assume h: "k \<noteq> a \<and> map_of m k = Some entry"
      and "map_of (em_similarEndpoints entry) i \<noteq> None"
    then have "(k, entry) \<in> set (filter ?P m)" by (auto dest: map_of_SomeD)
    then have "k \<in> set (holders m i)" by (force simp: holders_def)
    then show False using assms(2) h by simp
  qed
  then show ?thesis using ma held by auto
qed

lemma map_of_add_similar:
  "map_of (add_similar m a item) k =
     (case map_of m k of
        None \<Rightarrow> None
      | Some entry \<Rightarrow>
          if k = a
          then Some (entry\<lparr>em_similarEndpoints := assign (em_similarEndpoints entry) (ep_uuid item) item\<rparr>)
          else Some entry)"
  by (induction m) (auto simp: add_similar_def)

lemma keys_add_similar: "map fst (add_similar m a item) = map fst m"
  by (induction m) (auto simp: add_similar_def)

text \<open>
  Claim C2, as the code decides it. Let the pre-existing identity \<open>item\<close> be no
  entry of the batch map itself (no earlier path of the batch matched it exactly)
  and be held by exactly one earlier candidate \<open>U\<close> of the batch when the new
  candidate \<open>apiEndpoint\<close> meets it. The new candidate takes \<open>item\<close> over exactly
  when its parameter count equals that of \<open>item\<close>, or when the count of \<open>U\<close>
  differs from that of \<open>item\<close> and the new candidate has strictly fewer parameter
  segments than \<open>U\<close>; in every other case \<open>U\<close> keeps it. Afterwards exactly one of
  the two holds \<open>item\<close>.
\<close>

theorem claim_similar_tie_break:
  assumes "distinct (map fst endpointsMap)"
      and "holders endpointsMap (ep_uuid item) = [U]"
      and "map_of endpointsMap U = Some eU"
      and "map_of endpointsMap (ep_uuid apiEndpoint) = Some eA"
      and "ep_uuid apiEndpoint \<noteq> U"
      and "map_of endpointsMap (ep_uuid item) = None"
  shows "holders (claim_similar apiEndpoint endpointsMap item) (ep_uuid item) =
           (if ep_numberParams apiEndpoint = ep_numberParams item \<or>
               (ep_numberParams (em_endpoint eU) \<noteq> ep_numberParams item \<and>
                ep_numberParams apiEndpoint < ep_numberParams (em_endpoint eU))
            then [ep_uuid apiEndpoint] else [U])"
proof -
  let ?i = "ep_uuid item"
  let ?a = "ep_uuid apiEndpoint"
  let ?take = "ep_numberParams apiEndpoint = ep_numberParams item \<or>
               (ep_numberParams (em_endpoint eU) \<noteq> ep_numberParams item \<and>
                ep_numberParams apiEndpoint < ep_numberParams (em_endpoint eU))"
  let ?released = "eU\<lparr>em_similarEndpoints := delete_key (em_similarEndpoints eU) ?i\<rparr>"
  from holders_singleD [OF assms(1,2)] assms(3)
  have held: "map_of (em_similarEndpoints eU) ?i \<noteq> None"
    and others: "\<forall>k entry. k \<noteq> U \<and> map_of endpointsMap k = Some entry \<longrightarrow>
                   map_of (em_similarEndpoints entry) ?i = None"
    by auto
  have U_key: "U \<in> set (map fst endpointsMap)"
    using assms(3) by (auto dest: map_of_SomeD simp: rev_image_eqI)
  have loop: "release_loop apiEndpoint item (map fst endpointsMap) (endpointsMap, False) =
                (if ?take then (assign endpointsMap U ?released, False) else (endpointsMap, True))"
    by (rule release_loop_single_holder [OF assms(1) U_key assms(3) held]) (use others in blast)
  show ?thesis
  proof (cases ?take)
    case False
    then have "release_loop apiEndpoint item (map fst endpointsMap) (endpointsMap, False) =
                 (endpointsMap, True)"
      using loop by (simp only: if_False)
    then have "claim_similar apiEndpoint endpointsMap item = endpointsMap"
      using assms(6) by (simp add: claim_similar_def)
    then show ?thesis using False assms(2) by (simp only: if_False)
  next
    case True
    let ?m1 = "assign endpointsMap U ?released"
    let ?m2 = "add_similar ?m1 ?a item"
    have "release_loop apiEndpoint item (map fst endpointsMap) (endpointsMap, False) =
            (?m1, False)"
      using True loop by (simp only: if_True)
    then have res: "claim_similar apiEndpoint endpointsMap item = ?m2"
      using assms(6) by (simp add: claim_similar_def)
    have keys: "map fst ?m2 = map fst endpointsMap"
      using U_key by (simp add: keys_add_similar keys_assign_present)
    have "holders ?m2 ?i = [?a]"
    proof (rule holders_single)
      show "distinct (map fst ?m2)" using keys assms(1) by simp
      show "map_of ?m2 ?a =
              Some (eA\<lparr>em_similarEndpoints := assign (em_similarEndpoints eA) ?i item\<rparr>)"
        using assms(4,5) by (simp add: map_of_add_similar map_of_assign)
      show "map_of (em_similarEndpoints
                (eA\<lparr>em_similarEndpoints := assign (em_similarEndpoints eA) ?i item\<rparr>)) ?i \<noteq> None"
        by (simp add: map_of_assign)
      show "\<forall>k entry. k \<noteq> ?a \<and> map_of ?m2 k = Some entry \<longrightarrow>
              map_of (em_similarEndpoints entry) ?i = None"
        using others by (auto simp: map_of_add_similar map_of_assign map_of_delete_key
                            split: option.splits if_splits)
    qed
    then show ?thesis using True res by (simp only: if_True)
  qed
qed

theorem claim_similar_tie_break_witness:
  "distinct (map fst batch_after_first) \<and>
   holders batch_after_first (ep_uuid stored_c) = [''new-0''] \<and>
   map_of batch_after_first ''new-0'' =
     Some \<lparr> em_endpoint = candidate ''new-0'' ''/a/{x}/c'',
            em_similarEndpoints = [(''i1'', stored_c)] \<rparr> \<and>
   map_of batch_after_first (ep_uuid (candidate ''new-1'' ''/a/b/c'')) =
     Some \<lparr> em_endpoint = candidate ''new-1'' ''/a/b/c'', em_similarEndpoints = [] \<rparr> \<and>
   ep_uuid (candidate ''new-1'' ''/a/b/c'') \<noteq> ''new-0'' \<and>
   map_of batch_after_first (ep_uuid stored_c) = None \<and>
   holders (claim_similar (candidate ''new-1'' ''/a/b/c'') batch_after_first stored_c)
     (ep_uuid stored_c) = [''new-0'']"
proof -
  have np: "numberOfParameterSegments ''/a/{x}/c'' = 1" "numberOfParameterSegments ''/a/{p}/c'' = 1"
    "numberOfParameterSegments ''/a/b/c'' = 0"
    by (simp_all add: numberOfParameterSegments_def tokenize_def isParameterToken_def)
  have 1: "distinct (map fst batch_after_first)"
    by (simp add: batch_after_first_def)
  have 2: "holders batch_after_first (ep_uuid stored_c) = [''new-0'']"
    by (simp add: batch_after_first_def holders_def stored_c_def stored_endpoint_def)
  have 3: "map_of batch_after_first ''new-0'' =
     Some \<lparr> em_endpoint = candidate ''new-0'' ''/a/{x}/c'',
            em_similarEndpoints = [(''i1'', stored_c)] \<rparr>"
    by (simp add: batch_after_first_def)
  have 4: "map_of batch_after_first (ep_uuid (candidate ''new-1'' ''/a/b/c'')) =
     Some \<lparr> em_endpoint = candidate ''new-1'' ''/a/b/c'', em_similarEndpoints = [] \<rparr>"
    by (simp add: batch_after_first_def candidate_def stored_endpoint_def)
  have 5: "ep_uuid (candidate ''new-1'' ''/a/b/c'') \<noteq> ''new-0''"
    by (simp add: candidate_def stored_endpoint_def)
  have 6: "map_of batch_after_first (ep_uuid stored_c) = None"
    by (simp add: batch_after_first_def stored_c_def stored_endpoint_def)
  from claim_similar_tie_break [OF 1 2 3 4 5 6]
  have "holders (claim_similar (candidate ''new-1'' ''/a/b/c'') batch_after_first stored_c)
          (ep_uuid stored_c) = [''new-0'']"
    by (simp add: candidate_def stored_c_def stored_endpoint_def np)
  with 1 2 3 4 5 6 show ?thesis by blast
qed

text \<open>
  Claim C2 as stated fails, in two ways. The endpoint \<^verbatim>\<open>/a/{p}/c\<close> is stored; one
  call of \<^verbatim>\<open>generateEndpointsMap\<close> brings the candidates \<^verbatim>\<open>/a/{x}/c\<close> (one
  parameter) and then \<^verbatim>\<open>/a/b/c\<close> (none), and both overlap the stored endpoint. The
  stored endpoint stays with the first candidate, which has more parameter
  segments. And where the stored endpoint is an entry of the batch map itself,
  the comparison is skipped: \<^verbatim>\<open>/users/123\<close> is stored, and \<^verbatim>\<open>uploadNewSpec\<close> resolves
  the paths \<^verbatim>\<open>/users/123\<close>, \<^verbatim>\<open>/{a}/{b}\<close> and \<^verbatim>\<open>/users/{id}\<close>; the first path matches the
  stored endpoint exactly, and each of the two candidates created after it holds
  the stored endpoint in the end.
\<close>

theorem fewer_parameters_counterexample:
  "generateEndpointsMap utils0 spec_env0 (db_of [] [stored_c] [])
     [''/a/{x}/c'', ''/a/b/c''] ''GET'' ''api.test'' 3 = Inr batch_after_first
   \<and> holders batch_after_first ''i1'' = [''new-0'']
   \<and> ep_numberParams (candidate ''new-1'' ''/a/b/c'')
       < ep_numberParams (candidate ''new-0'' ''/a/{x}/c'')
   \<and> (case resolve_spec utils0 spec_env0 users_db
              (spec_of_paths [''/users/123'', ''/{a}/{b}'', ''/users/{id}'']) ''petstore'' YAML ''s'' of
         Inl err \<Rightarrow> []
       | Inr (existingSpec, endpointsMap) \<Rightarrow> holders endpointsMap ''i1'')
     = [''new-0'', ''new-1'']"
  by code_simp

section \<open>The batch map is keyed by uuid\<close>

lemma set_assign_subset: "set (assign kvs k v) \<subseteq> insert (k, v) (set kvs)"
  by (induction kvs k v rule: assign.induct) auto

lemma entry_ok_release:
  assumes "entry_ok env db k entry"
  shows "entry_ok env db k
           (entry\<lparr>em_similarEndpoints := delete_key (em_similarEndpoints entry) i\<rparr>)"
proof -
  have "set (delete_key (em_similarEndpoints entry) i) \<subseteq> set (em_similarEndpoints entry)"
    by (simp add: delete_key_def)
  moreover have "delete_key (em_similarEndpoints entry) i \<noteq> [] \<Longrightarrow> em_similarEndpoints entry \<noteq> []"
    by (auto simp: delete_key_def)
  ultimately show ?thesis using assms
    by (auto simp: entry_ok_def superseded_uuids_def)
qed

lemma entry_ok_claim:
  assumes "entry_ok env db k entry"
      and "ep_uuid item \<in> set (map (\<lambda>e. ep_uuid e) (db_endpoints db))"
      and "k \<in> range (uuidv4 env)"
  shows "entry_ok env db k
           (entry\<lparr>em_similarEndpoints := assign (em_similarEndpoints entry) (ep_uuid item) item\<rparr>)"
proof -
  have "set (assign (em_similarEndpoints entry) (ep_uuid item) item)
          \<subseteq> insert (ep_uuid item, item) (set (em_similarEndpoints entry))"
    by (rule set_assign_subset)
  then have sub: "snd ` set (assign (em_similarEndpoints entry) (ep_uuid item) item)
          \<subseteq> insert item (snd ` set (em_similarEndpoints entry))"
    by force
  let ?D = "set (map (\<lambda>e. ep_uuid e) (db_endpoints db))"
  have old: "ep_uuid ` snd ` set (em_similarEndpoints entry) \<subseteq> ?D"
    using assms(1) by (simp add: entry_ok_def superseded_uuids_def image_image)
  have "ep_uuid ` snd ` set (assign (em_similarEndpoints entry) (ep_uuid item) item)
          \<subseteq> ep_uuid ` insert item (snd ` set (em_similarEndpoints entry))"
    using sub by (rule image_mono)
  also have "\<dots> \<subseteq> ?D" using old assms(2) by simp
  finally have "set (superseded_uuids
                  (entry\<lparr>em_similarEndpoints :=
                           assign (em_similarEndpoints entry) (ep_uuid item) item\<rparr>)) \<subseteq> ?D"
    by (simp add: superseded_uuids_def image_image)
  moreover have "ep_uuid (em_endpoint entry) = k" using assms(1) by (simp add: entry_ok_def)
  ultimately show ?thesis using assms(3) by (simp add: entry_ok_def)
qed

lemma batch_ok_assign:
  assumes "batch_ok env db m" and "entry_ok env db k entry"
  shows "batch_ok env db (assign m k entry)"
proof -
  have "distinct (map fst (assign m k entry))"
    using assms(1) by (simp add: batch_ok_def keys_assign)
  moreover have "\<forall>kv\<in>set (assign m k entry). entry_ok env db (fst kv) (snd kv)"
    using set_assign_subset [of m k entry] assms by (auto simp: batch_ok_def)
  ultimately show ?thesis by (simp add: batch_ok_def)
qed

lemma batch_ok_lookup:
  assumes "batch_ok env db m" and "map_of m k = Some entry"
  shows "entry_ok env db k entry"
  using assms map_of_SomeD [OF assms(2)] by (force simp: batch_ok_def)

lemma batch_ok_release_loop:
  assumes "batch_ok env db m"
  shows "batch_ok env db (fst (release_loop apiEndpoint item ks (m, ex)))"
  using assms
proof (induction ks arbitrary: m ex)
  case Nil
  then show ?case by simp
next
  case (Cons k ks)
  show ?case
  proof (cases "map_of m k")
    case None
    then show ?thesis using Cons by simp
  next
    case (Some entry)
    have "batch_ok env db
            (assign m k (entry\<lparr>em_similarEndpoints :=
                                  delete_key (em_similarEndpoints entry) (ep_uuid item)\<rparr>))"
      using batch_ok_assign [OF Cons.prems entry_ok_release [OF batch_ok_lookup [OF Cons.prems Some]]]
      by simp
    then show ?thesis using Some Cons by simp
  qed
qed

lemma batch_ok_add_similar:
  assumes "batch_ok env db m"
      and "ep_uuid item \<in> set (map (\<lambda>e. ep_uuid e) (db_endpoints db))"
      and "a \<in> range (uuidv4 env)"
  shows "batch_ok env db (add_similar m a item)"
proof -
  have "distinct (map fst (add_similar m a item))"
    using assms(1) by (simp add: batch_ok_def keys_add_similar)
  moreover have "\<forall>kv\<in>set (add_similar m a item). entry_ok env db (fst kv) (snd kv)"
  proof
    fix kv assume "kv \<in> set (add_similar m a item)"
    then obtain k entry where in_m: "(k, entry) \<in> set m"
      and kv: "kv = (if k = a
                     then (k, entry\<lparr>em_similarEndpoints :=
                                       assign (em_similarEndpoints entry) (ep_uuid item) item\<rparr>)
                     else (k, entry))"
      by (auto simp: add_similar_def)
    have ok: "entry_ok env db k entry" using assms(1) in_m by (force simp: batch_ok_def)
    show "entry_ok env db (fst kv) (snd kv)"
    proof (cases "k = a")
      case True
      then show ?thesis using kv entry_ok_claim [OF ok assms(2)] assms(3) by simp
    next
      case False
      then show ?thesis using kv ok by simp
    qed
  qed
  ultimately show ?thesis by (simp add: batch_ok_def)
qed

lemma batch_ok_claim_similar:
  assumes "batch_ok env db m"
      and "ep_uuid item \<in> set (map (\<lambda>e. ep_uuid e) (db_endpoints db))"
      and "ep_uuid apiEndpoint \<in> range (uuidv4 env)"
  shows "batch_ok env db (claim_similar apiEndpoint m item)"
proof -
  let ?r = "if map_of m (ep_uuid item) = None
            then release_loop apiEndpoint item (map fst m) (m, False)
            else (m, False)"
  have ok: "batch_ok env db (fst ?r)"
  proof (cases "map_of m (ep_uuid item) = None")
    case True
    then have "?r = release_loop apiEndpoint item (map fst m) (m, False)" by (rule if_P)
    then show ?thesis using batch_ok_release_loop [OF assms(1)] by simp
  next
    case False
    then have "?r = (m, False)" by (rule if_not_P)
    then show ?thesis using assms(1) by simp
  qed
  have "claim_similar apiEndpoint m item =
          (if \<not> snd ?r then add_similar (fst ?r) (ep_uuid apiEndpoint) item else fst ?r)"
    by (simp add: claim_similar_def case_prod_beta)
  then show ?thesis using ok batch_ok_add_similar [OF ok assms(2,3)] by simp
qed

lemma batch_ok_claim_all:
  assumes "batch_ok env db m"
      and "\<forall>item\<in>set items. ep_uuid item \<in> set (map (\<lambda>e. ep_uuid e) (db_endpoints db))"
      and "ep_uuid apiEndpoint \<in> range (uuidv4 env)"
  shows "batch_ok env db (foldl (claim_similar apiEndpoint) m items)"
  using assms(1,2)
proof (induction items arbitrary: m)
  case Nil
  then show ?case by simp
next
  case (Cons item items)
  have "batch_ok env db (claim_similar apiEndpoint m item)"
    using batch_ok_claim_similar [OF Cons.prems(1) _ assms(3)] Cons.prems(2) by simp
  then show ?case using Cons.IH Cons.prems(2) by simp
qed

lemma batch_ok_forget:
  assumes "batch_ok env db m"
  shows "batch_ok env db
           (map (\<lambda>(k, entry).
                   (k, entry\<lparr>em_similarEndpoints := delete_key (em_similarEndpoints entry) i\<rparr>)) m)"
proof -
  let ?f = "\<lambda>(k, entry).
              (k, entry\<lparr>em_similarEndpoints := delete_key (em_similarEndpoints entry) i\<rparr>)"
  have keys: "map fst (map ?f m) = map fst m" by (induction m) auto
  have d: "distinct (map fst m)" using assms by (simp add: batch_ok_def)
  have "distinct (map fst (map ?f m))" unfolding keys by (rule d)
  moreover have "\<forall>kv\<in>set (map ?f m). entry_ok env db (fst kv) (snd kv)"
  proof
    fix kv assume "kv \<in> set (map ?f m)"
    then obtain k entry where in_m: "(k, entry) \<in> set m"
      and kv: "kv = (k, entry\<lparr>em_similarEndpoints := delete_key (em_similarEndpoints entry) i\<rparr>)"
      by auto
    have "entry_ok env db k entry" using assms in_m by (force simp: batch_ok_def)
    from entry_ok_release [OF this] show "entry_ok env db (fst kv) (snd kv)" using kv by simp
  qed
  ultimately show ?thesis by (simp add: batch_ok_def)
qed

lemma batch_ok_resolve_host:
  assumes "batch_ok env db m"
      and "resolve_host u env db existingSpec path' pathRegex methodEnum (m, n) host' = Inr (m', n')"
  shows "batch_ok env db m'"
proof (cases "map_option (load_openapiSpec db) (findOne db path' methodEnum host')")
  case None
  let ?apiEndpoint =
    "\<lparr> ep_uuid = uuidv4 env n, ep_path = path', ep_pathRegex = pathRegex,
       ep_method = methodEnum, ep_host = host',
       ep_numberParams = numberParamsOf u path',
       ep_openapiSpecName = None, ep_openapiSpec = Some existingSpec,
       ep_riskScore = None, ep_firstDetected = None, ep_lastActive = None \<rparr>"
  let ?m1 = "assign m (ep_uuid ?apiEndpoint) \<lparr> em_endpoint = ?apiEndpoint, em_similarEndpoints = [] \<rparr>"
  have m': "m' = foldl (claim_similar ?apiEndpoint) ?m1 (find_similar u db pathRegex methodEnum host')"
    using assms(2) None by (simp add: resolve_host_def Let_def)
  have "entry_ok env db (ep_uuid ?apiEndpoint)
          \<lparr> em_endpoint = ?apiEndpoint, em_similarEndpoints = [] \<rparr>"
    by (simp add: entry_ok_def superseded_uuids_def)
  from batch_ok_assign [OF assms(1) this] have m1: "batch_ok env db ?m1" .
  have stored: "\<forall>item\<in>set (find_similar u db pathRegex methodEnum host').
                  ep_uuid item \<in> set (map (\<lambda>e. ep_uuid e) (db_endpoints db))"
    by (auto simp: find_similar_def)
  have "ep_uuid ?apiEndpoint \<in> range (uuidv4 env)" by simp
  from batch_ok_claim_all [OF m1 stored this] show ?thesis unfolding m' .
next
  case (Some found)
  let ?apiEndpoint = "found\<lparr>ep_openapiSpec := Some existingSpec,
                            ep_openapiSpecName := Some (spec_name existingSpec)\<rparr>"
  let ?m1 = "assign m (ep_uuid ?apiEndpoint) \<lparr> em_endpoint = ?apiEndpoint, em_similarEndpoints = [] \<rparr>"
  have m': "m' = map (\<lambda>(k, entry).
                       (k, entry\<lparr>em_similarEndpoints :=
                                     delete_key (em_similarEndpoints entry) (ep_uuid ?apiEndpoint)\<rparr>))
                   ?m1"
    using assms(2) Some by (simp add: resolve_host_def Let_def split: if_splits)
  have "entry_ok env db (ep_uuid ?apiEndpoint)
          \<lparr> em_endpoint = ?apiEndpoint, em_similarEndpoints = [] \<rparr>"
    by (simp add: entry_ok_def superseded_uuids_def)
  from batch_ok_assign [OF assms(1) this] have "batch_ok env db ?m1" .
  from batch_ok_forget [OF this] show ?thesis unfolding m' .
qed

lemma fold_err_invariant:
  assumes "\<And>s x s'. P s \<Longrightarrow> f s x = Inr s' \<Longrightarrow> P s'"
      and "P s" and "fold_err f s xs = Inr s'"
  shows "P s'"
  using assms(2,3)
proof (induction xs arbitrary: s)
  case Nil
  then show ?case by simp
next
  case (Cons x xs)
  from Cons.prems(2) obtain s1 where s1: "f s x = Inr s1" and rest: "fold_err f s1 xs = Inr s'"
    by (cases "f s x") (auto simp: bind_err_def)
  from assms(1) [OF Cons.prems(1) s1] have "P s1" .
  from Cons.IH [OF this rest] show ?case .
qed

lemma batch_ok_resolve_method:
  assumes "batch_ok env db (fst st)"
      and "resolve_method u env db specObject existingSpec path' pathRegex st method' = Inr st'"
  shows "batch_ok env db (fst st')"
proof -
  obtain m hs n where st: "st = (m, hs, n)" by (cases st)
  let ?f = "resolve_host u env db existingSpec path' pathRegex (toUpperCase method')"
  let ?hosts = "getHostsV3 env (getServersV3 env specObject path' method')"
  from assms(2) st obtain m' n' where
    hosts: "fold_err ?f (m, n) ?hosts = Inr (m', n')" and st': "fst st' = m'"
    by (cases "fold_err ?f (m, n) ?hosts")
       (auto simp: resolve_method_def Let_def bind_err_def split: if_splits)
  have step: "\<And>s x s'. batch_ok env db (fst s) \<Longrightarrow> ?f s x = Inr s' \<Longrightarrow> batch_ok env db (fst s')"
  proof -
    fix s x s' assume ok: "batch_ok env db (fst s)" and r: "?f s x = Inr s'"
    obtain a b where s: "s = (a, b)" by (cases s)
    obtain a' b' where s': "s' = (a', b')" by (cases s')
    from batch_ok_resolve_host [of env db a u existingSpec path' pathRegex "toUpperCase method'" b x a' b']
    show "batch_ok env db (fst s')" using ok r s s' by simp
  qed
  have start: "batch_ok env db (fst (m, n))" using assms(1) st by simp
  have "batch_ok env db (fst (m', n'))"
    by (rule fold_err_invariant [where P = "\<lambda>s. batch_ok env db (fst s)", OF step start hosts])
  then show ?thesis using st' by simp
qed

lemma batch_ok_resolve_path:
  assumes "batch_ok env db (fst st)"
      and "resolve_path u env db specObject paths existingSpec st path' = Inr st'"
  shows "batch_ok env db (fst st')"
proof -
  let ?f = "resolve_method u env db specObject existingSpec path' (getPathRegex u path')"
  from assms(2) obtain keys where
    r: "fold_err ?f st (filter (\<lambda>key. toUpperCase key \<in> set (restMethods env)) keys) = Inr st'"
    by (cases "object_keys (map_of (entries paths) path')")
       (auto simp: resolve_path_def Let_def bind_err_def)
  show ?thesis
    by (rule fold_err_invariant [where P = "\<lambda>s. batch_ok env db (fst s)", OF _ assms(1) r])
       (rule batch_ok_resolve_method)
qed

lemma batch_ok_resolve_spec:
  assumes "resolve_spec u env db specObject fileName extension specString =
             Inr (existingSpec, endpointsMap)"
  shows "batch_ok env db endpointsMap"
proof -
  let ?spec = "existing_spec env db fileName extension specString"
  from assms obtain ps pathKeys st' where
    r: "fold_err (resolve_path u env db specObject ps ?spec) ([], [], 0) pathKeys = Inr st'"
    and m: "endpointsMap = fst st'"
    by (auto simp: resolve_spec_def Let_def bind_err_def split: sum.splits option.splits prod.splits)
  have start: "batch_ok env db (fst ([] :: EndpointsRecord, [] :: string list, 0 :: nat))"
    by (simp add: batch_ok_def)
  have "batch_ok env db (fst st')"
    by (rule fold_err_invariant [where P = "\<lambda>s. batch_ok env db (fst s)", OF _ start r])
       (rule batch_ok_resolve_path)
  then show ?thesis using m by simp
qed

text \<open>
  Where the uuids handed out are not in the endpoint table, an entry that
  supersedes something is superseded by no entry.
\<close>

lemma batch_ok_uuids:
  assumes "batch_ok env db m"
  shows "map (\<lambda>i. ep_uuid (em_endpoint i)) (map snd m) = map fst m"
  using assms by (induction m) (auto simp: batch_ok_def entry_ok_def)

lemma batch_ok_survives:
  assumes "batch_ok env db m"
      and "\<forall>n. uuidv4 env n \<notin> set (map (\<lambda>e. ep_uuid e) (db_endpoints db))"
      and "item \<in> set (map snd m)" and "em_similarEndpoints item \<noteq> []"
      and "other \<in> set (map snd m)"
  shows "ep_uuid (em_endpoint item) \<notin> set (superseded_uuids other)"
proof -
  from assms(3) obtain k where "(k, item) \<in> set m" by auto
  then have "entry_ok env db k item" using assms(1) by (force simp: batch_ok_def)
  then have "ep_uuid (em_endpoint item) \<in> range (uuidv4 env)"
    using assms(4) by (simp add: entry_ok_def)
  then obtain n where "ep_uuid (em_endpoint item) = uuidv4 env n" by (elim rangeE)
  then have fresh: "ep_uuid (em_endpoint item) \<notin> set (map (\<lambda>e. ep_uuid e) (db_endpoints db))"
    using assms(2) [rule_format, of n] by simp
  from assms(5) obtain k' where "(k', other) \<in> set m" by auto
  then have "entry_ok env db k' other" using assms(1) by (force simp: batch_ok_def)
  then have "set (superseded_uuids other) \<subseteq> set (map (\<lambda>e. ep_uuid e) (db_endpoints db))"
    by (simp add: entry_ok_def)
  then show ?thesis using fresh by blast
qed

section \<open>Risk score and activity window of a survivor\<close>

lemma riskScore_updateDates [simp]: "ep_riskScore (updateDates e d) = ep_riskScore e"
  by (simp add: updateDates_def split: option.splits)

lemma absorb_rank:
  "risk_rank (ep_riskScore (absorb a e)) =
     max (risk_rank (ep_riskScore a)) (risk_rank (ep_riskScore e))"
  by (auto simp: absorb_def risk_rank_def Let_def split: option.splits)

lemma absorb_riskScore_cases:
  "ep_riskScore (absorb a e) = ep_riskScore a \<or> ep_riskScore (absorb a e) = ep_riskScore e"
  by (auto simp: absorb_def Let_def split: option.splits)

lemma foldl_absorb_rank:
  "risk_rank (ep_riskScore (foldl absorb a es)) =
     fold max (map (\<lambda>e. risk_rank (ep_riskScore e)) es) (risk_rank (ep_riskScore a))"
  by (induction es arbitrary: a) (simp_all add: absorb_rank max.commute)

lemma foldl_absorb_riskScore_mem:
  "ep_riskScore (foldl absorb a es) \<in> ep_riskScore ` set (a # es)"
proof (induction es arbitrary: a)
  case Nil
  then show ?case by simp
next
  case (Cons e es)
  from Cons.IH [of "absorb a e"] absorb_riskScore_cases [of a e]
  show ?case by auto
qed

lemma uuid_absorb: "ep_uuid (absorb a e) = ep_uuid a"
  by (simp add: absorb_def updateDates_def Let_def split: option.splits)

lemma uuid_merged_endpoint: "ep_uuid (merged_endpoint item) = ep_uuid (em_endpoint item)"
proof -
  have "ep_uuid (foldl absorb a es) = ep_uuid a" for a es
    by (induction es arbitrary: a) (simp_all add: uuid_absorb)
  then show ?thesis by (simp add: merged_endpoint_def)
qed

text \<open>The dates after one round of the loop over the superseded endpoints.\<close>

lemma absorb_first:
  assumes "dates_in_order e"
  shows "ep_firstDetected (absorb a e) =
           (case ep_firstDetected e of
              None \<Rightarrow> ep_firstDetected a
            | Some f \<Rightarrow> Some (case ep_firstDetected a of None \<Rightarrow> f | Some x \<Rightarrow> min x f))"
  using assms
  by (auto simp: dates_in_order_def absorb_def updateDates_def Let_def split: option.splits)

lemma absorb_last:
  assumes "dates_in_order e"
  shows "ep_lastActive (absorb a e) =
           (case ep_lastActive e of
              None \<Rightarrow> ep_lastActive a
            | Some l \<Rightarrow> Some (case ep_lastActive a of None \<Rightarrow> l | Some x \<Rightarrow> max x l))"
  using assms
  by (auto simp: dates_in_order_def absorb_def updateDates_def Let_def split: option.splits)

lemma earliest_step:
  "earliest ((case d of
                None \<Rightarrow> acc
              | Some t \<Rightarrow> Some (case acc of None \<Rightarrow> t | Some x \<Rightarrow> min x t)) # ds) =
     earliest (acc # d # ds)"
proof (cases d)
  case None
  then show ?thesis by (simp add: earliest_def present_def)
next
  case (Some t)
  show ?thesis
  proof (cases acc)
    case None
    then show ?thesis using Some by (simp add: earliest_def present_def)
  next
    case (Some x)
    show ?thesis
    proof (cases "present ds = []")
      case True
      then show ?thesis using \<open>d = Some t\<close> Some
        by (simp add: earliest_def present_def min.commute)
    next
      case False
      then have ne: "set (present ds) \<noteq> {}" by simp
      have "Min (insert (min x t) (set (present ds))) = Min (insert x (insert t (set (present ds))))"
        using ne by (simp add: min.assoc)
      then show ?thesis using \<open>d = Some t\<close> Some False
        by (simp add: earliest_def present_def)
    qed
  qed
qed

lemma latest_step:
  "latest ((case d of
              None \<Rightarrow> acc
            | Some t \<Rightarrow> Some (case acc of None \<Rightarrow> t | Some x \<Rightarrow> max x t)) # ds) =
     latest (acc # d # ds)"
proof (cases d)
  case None
  then show ?thesis by (simp add: latest_def present_def)
next
  case (Some t)
  show ?thesis
  proof (cases acc)
    case None
    then show ?thesis using Some by (simp add: latest_def present_def)
  next
    case (Some x)
    show ?thesis
    proof (cases "present ds = []")
      case True
      then show ?thesis using \<open>d = Some t\<close> Some
        by (simp add: latest_def present_def max.commute)
    next
      case False
      then have ne: "set (present ds) \<noteq> {}" by simp
      have "Max (insert (max x t) (set (present ds))) = Max (insert x (insert t (set (present ds))))"
        using ne by (simp add: max.assoc)
      then show ?thesis using \<open>d = Some t\<close> Some False
        by (simp add: latest_def present_def)
    qed
  qed
qed

lemma earliest_single: "earliest [d] = d"
  by (cases d) (simp_all add: earliest_def present_def)

lemma latest_single: "latest [d] = d"
  by (cases d) (simp_all add: latest_def present_def)

lemma foldl_absorb_first:
  assumes "\<forall>e\<in>set es. dates_in_order e"
  shows "ep_firstDetected (foldl absorb a es) =
           earliest (ep_firstDetected a # map ep_firstDetected es)"
  using assms
proof (induction es arbitrary: a)
  case Nil
  then show ?case by (simp add: earliest_single)
next
  case (Cons e es)
  have "ep_firstDetected (foldl absorb (absorb a e) es) =
          earliest (ep_firstDetected (absorb a e) # map ep_firstDetected es)"
    using Cons by simp
  also have "\<dots> = earliest (ep_firstDetected a # ep_firstDetected e # map ep_firstDetected es)"
    using Cons.prems by (simp add: absorb_first earliest_step)
  finally show ?case by simp
qed

lemma foldl_absorb_last:
  assumes "\<forall>e\<in>set es. dates_in_order e"
  shows "ep_lastActive (foldl absorb a es) =
           latest (ep_lastActive a # map ep_lastActive es)"
  using assms
proof (induction es arbitrary: a)
  case Nil
  then show ?case by (simp add: latest_single)
next
  case (Cons e es)
  have "ep_lastActive (foldl absorb (absorb a e) es) =
          latest (ep_lastActive (absorb a e) # map ep_lastActive es)"
    using Cons by simp
  also have "\<dots> = latest (ep_lastActive a # ep_lastActive e # map ep_lastActive es)"
    using Cons.prems by (simp add: absorb_last latest_step)
  finally show ?case by simp
qed

text \<open>What the merged endpoint of an entry holds.\<close>

lemma merged_endpoint_risk:
  "risk_rank (ep_riskScore (merged_endpoint item)) =
     Max (set (map (\<lambda>e. risk_rank (ep_riskScore e)) (merged_set item)))"
  unfolding merged_endpoint_def merged_set_def list.map Max.set_eq_fold
  by (rule foldl_absorb_rank)

lemma merged_endpoint_risk_mem:
  "ep_riskScore (merged_endpoint item) \<in> set (map ep_riskScore (merged_set item))"
  using foldl_absorb_riskScore_mem [of "em_endpoint item" "map snd (em_similarEndpoints item)"]
  by (simp add: merged_endpoint_def merged_set_def image_image)

lemma merged_endpoint_dates:
  assumes "\<forall>e\<in>set (map snd (em_similarEndpoints item)). dates_in_order e"
  shows "ep_firstDetected (merged_endpoint item) = earliest (map ep_firstDetected (merged_set item))"
    and "ep_lastActive (merged_endpoint item) = latest (map ep_lastActive (merged_set item))"
  using foldl_absorb_first [OF assms] foldl_absorb_last [OF assms]
  by (simp_all add: merged_endpoint_def merged_set_def)

text \<open>The rows of the endpoint table through the transaction.\<close>

lemma find_upsert_same:
  "find (\<lambda>y. key y = key x) (upsert key x xs) = Some x"
  by (induction xs) auto

lemma find_upsert_other:
  "key x \<noteq> k \<Longrightarrow> find (\<lambda>y. key y = k) (upsert key x xs) = find (\<lambda>y. key y = k) xs"
  by (induction xs) auto

lemma find_filter_keep:
  "(\<And>y. P y \<Longrightarrow> Q y) \<Longrightarrow> find P (filter Q xs) = find P xs"
  by (induction xs) auto

lemma find_save_endpoint_same:
  "\<exists>row. find (\<lambda>y. ep_uuid y = ep_uuid e) (db_endpoints (save_endpoint db e)) = Some row
      \<and> ep_riskScore row = ep_riskScore e
      \<and> ep_firstDetected row = ep_firstDetected e
      \<and> ep_lastActive row = ep_lastActive e"
proof -
  let ?row = "e\<lparr>ep_openapiSpecName :=
                  (case ep_openapiSpec e of
                     None \<Rightarrow> ep_openapiSpecName e
                   | Some s \<Rightarrow> Some (spec_name s)),
               ep_openapiSpec := None\<rparr>"
  have "find (\<lambda>y. ep_uuid y = ep_uuid ?row) (upsert ep_uuid ?row (db_endpoints db)) = Some ?row"
    by (rule find_upsert_same)
  then have "find (\<lambda>y. ep_uuid y = ep_uuid e) (db_endpoints (save_endpoint db e)) = Some ?row"
    by (simp add: save_endpoint_def)
  then show ?thesis by simp
qed

lemma find_save_endpoint_other:
  "ep_uuid e \<noteq> k \<Longrightarrow>
     find (\<lambda>y. ep_uuid y = k) (db_endpoints (save_endpoint db e)) =
     find (\<lambda>y. ep_uuid y = k) (db_endpoints db)"
  by (simp add: save_endpoint_def find_upsert_other)

lemma merge_item_endpoints:
  assumes "merge_item env db item = Inr db'"
  shows "db_endpoints db' =
           (if em_similarEndpoints item = []
            then db_endpoints (save_endpoint db (em_endpoint item))
            else filter (\<lambda>e. ep_uuid e \<notin> set (superseded_uuids item))
                   (db_endpoints (save_endpoint (save_endpoint db (em_endpoint item))
                                    (merged_endpoint item))))"
  using assms
  by (auto simp: merge_item_def superseded_uuids_def Let_def split: if_splits sum.splits)

lemma merge_item_saves:
  assumes "merge_item env db item = Inr db'"
      and "em_similarEndpoints item \<noteq> []"
      and "ep_uuid (em_endpoint item) \<notin> set (superseded_uuids item)"
  shows "\<exists>row. find (\<lambda>y. ep_uuid y = ep_uuid (em_endpoint item)) (db_endpoints db') = Some row
      \<and> ep_riskScore row = ep_riskScore (merged_endpoint item)
      \<and> ep_firstDetected row = ep_firstDetected (merged_endpoint item)
      \<and> ep_lastActive row = ep_lastActive (merged_endpoint item)"
proof -
  let ?k = "ep_uuid (em_endpoint item)"
  let ?db2 = "save_endpoint (save_endpoint db (em_endpoint item)) (merged_endpoint item)"
  have eq: "db_endpoints db' =
              filter (\<lambda>e. ep_uuid e \<notin> set (superseded_uuids item)) (db_endpoints ?db2)"
    using merge_item_endpoints [OF assms(1)] assms(2) by simp
  have "find (\<lambda>y. ep_uuid y = ?k) (db_endpoints db') = find (\<lambda>y. ep_uuid y = ?k) (db_endpoints ?db2)"
    unfolding eq using assms(3) by (intro find_filter_keep) simp
  then show ?thesis
    using find_save_endpoint_same [of "merged_endpoint item" "save_endpoint db (em_endpoint item)"]
    by (simp add: uuid_merged_endpoint)
qed

lemma merge_item_keeps:
  assumes "merge_item env db other = Inr db'"
      and "ep_uuid (em_endpoint other) \<noteq> k"
      and "k \<notin> set (superseded_uuids other)"
  shows "find (\<lambda>y. ep_uuid y = k) (db_endpoints db') = find (\<lambda>y. ep_uuid y = k) (db_endpoints db)"
proof (cases "em_similarEndpoints other = []")
  case True
  then show ?thesis
    using merge_item_endpoints [OF assms(1)] assms(2) by (simp add: find_save_endpoint_other)
next
  case False
  let ?db2 = "save_endpoint (save_endpoint db (em_endpoint other)) (merged_endpoint other)"
  have eq: "db_endpoints db' =
              filter (\<lambda>e. ep_uuid e \<notin> set (superseded_uuids other)) (db_endpoints ?db2)"
    using merge_item_endpoints [OF assms(1)] False by simp
  have "find (\<lambda>y. ep_uuid y = k) (db_endpoints db') = find (\<lambda>y. ep_uuid y = k) (db_endpoints ?db2)"
    unfolding eq using assms(3) by (intro find_filter_keep) simp
  then show ?thesis using assms(2)
    by (simp add: find_save_endpoint_other uuid_merged_endpoint)
qed

lemma merge_items_keeps:
  assumes "merge_items env db items = Inr db'"
      and "\<forall>other\<in>set items. ep_uuid (em_endpoint other) \<noteq> k \<and> k \<notin> set (superseded_uuids other)"
  shows "find (\<lambda>y. ep_uuid y = k) (db_endpoints db') = find (\<lambda>y. ep_uuid y = k) (db_endpoints db)"
  using assms
proof (induction items arbitrary: db)
  case Nil
  then show ?case by simp
next
  case (Cons x items)
  from Cons.prems(1) obtain db1 where x: "merge_item env db x = Inr db1"
    and rest: "merge_items env db1 items = Inr db'"
    by (auto split: sum.splits)
  have "find (\<lambda>y. ep_uuid y = k) (db_endpoints db1) = find (\<lambda>y. ep_uuid y = k) (db_endpoints db)"
    using merge_item_keeps [OF x] Cons.prems(2) by simp
  moreover have "find (\<lambda>y. ep_uuid y = k) (db_endpoints db') =
                   find (\<lambda>y. ep_uuid y = k) (db_endpoints db1)"
    using Cons.IH [OF rest] Cons.prems(2) by simp
  ultimately show ?case by simp
qed

lemma merge_items_saves:
  assumes "merge_items env db items = Inr db'"
      and "item \<in> set items"
      and "em_similarEndpoints item \<noteq> []"
      and "distinct (map (\<lambda>i. ep_uuid (em_endpoint i)) items)"
      and "\<forall>other\<in>set items. ep_uuid (em_endpoint item) \<notin> set (superseded_uuids other)"
  shows "\<exists>row. find (\<lambda>y. ep_uuid y = ep_uuid (em_endpoint item)) (db_endpoints db') = Some row
      \<and> ep_riskScore row = ep_riskScore (merged_endpoint item)
      \<and> ep_firstDetected row = ep_firstDetected (merged_endpoint item)
      \<and> ep_lastActive row = ep_lastActive (merged_endpoint item)"
  using assms(1,2,4,5)
proof (induction items arbitrary: db)
  case Nil
  then show ?case by simp
next
  case (Cons x items)
  let ?k = "ep_uuid (em_endpoint item)"
  from Cons.prems(1) obtain db1 where x: "merge_item env db x = Inr db1"
    and rest: "merge_items env db1 items = Inr db'"
    by (auto split: sum.splits)
  show ?case
  proof (cases "x = item")
    case True
    have "?k \<notin> (\<lambda>i. ep_uuid (em_endpoint i)) ` set items"
      using Cons.prems(3) True by simp
    then have "\<forall>other\<in>set items. ep_uuid (em_endpoint other) \<noteq> ?k"
      by (metis imageI)
    then have others: "\<forall>other\<in>set items. ep_uuid (em_endpoint other) \<noteq> ?k \<and>
                    ?k \<notin> set (superseded_uuids other)"
      using Cons.prems(4) by simp
    have "find (\<lambda>y. ep_uuid y = ?k) (db_endpoints db') = find (\<lambda>y. ep_uuid y = ?k) (db_endpoints db1)"
      by (rule merge_items_keeps [OF rest others])
    moreover have "?k \<notin> set (superseded_uuids item)" using Cons.prems(4) True by simp
    ultimately show ?thesis
      using merge_item_saves [OF x [unfolded True] assms(3)] by simp
  next
    case False
    then have "item \<in> set items" using Cons.prems(2) by simp
    moreover have "distinct (map (\<lambda>i. ep_uuid (em_endpoint i)) items)" using Cons.prems(3) by simp
    moreover have "\<forall>other\<in>set items. ?k \<notin> set (superseded_uuids other)"
      using Cons.prems(4) by simp
    ultimately show ?thesis using Cons.IH [OF rest] by blast
  qed
qed

text \<open>
  Claim C3, for the merge of \<^verbatim>\<open>uploadNewSpec\<close>. Let the upload succeed, no uuid
  handed out to a new endpoint being in the endpoint table already, and let an
  entry of the batch map supersede at least one identity. Then the database after
  the upload holds a row for that entry, the survivor, and the row has the highest
  risk score among the survivor's own and those of the superseded identities, a
  missing score counting lowest. If moreover the dates of each superseded
  identity are in order (both missing, or the first not after the last), the row
  has the earliest of the first dates and the latest of the last dates among
  them.
\<close>

theorem uploadNewSpec_survivor_inherits:
  assumes "normalize_spec env specObject extension specString = Inr (specObject', specString')"
      and "resolve_spec u env db specObject' fileName extension specString' =
             Inr (existingSpec, endpointsMap)"
      and "uploadNewSpec u env db specObject fileName extension specString existingQueryRunner =
             (Inr (), db')"
      and "\<forall>n. uuidv4 env n \<notin> set (map (\<lambda>e. ep_uuid e) (db_endpoints db))"
      and "item \<in> set (map snd endpointsMap)"
      and "em_similarEndpoints item \<noteq> []"
  shows "\<exists>saved. find (\<lambda>e. ep_uuid e = ep_uuid (em_endpoint item)) (db_endpoints db') = Some saved
       \<and> risk_rank (ep_riskScore saved) =
           Max (set (map (\<lambda>e. risk_rank (ep_riskScore e)) (merged_set item)))
       \<and> ep_riskScore saved \<in> set (map ep_riskScore (merged_set item))
       \<and> ((\<forall>e\<in>set (map snd (em_similarEndpoints item)). dates_in_order e) \<longrightarrow>
            ep_firstDetected saved = earliest (map ep_firstDetected (merged_set item))
          \<and> ep_lastActive saved = latest (map ep_lastActive (merged_set item)))"
proof -
  have merged: "merge_items env (save_spec db existingSpec) (map snd endpointsMap) = Inr db'"
    using assms(1,2,3) by (simp add: uploadNewSpec_def split: sum.splits prod.splits)
  have ok: "batch_ok env db endpointsMap"
    by (rule batch_ok_resolve_spec [OF assms(2)])
  have keys: "distinct (map (\<lambda>i. ep_uuid (em_endpoint i)) (map snd endpointsMap))"
    unfolding batch_ok_uuids [OF ok] using ok by (simp add: batch_ok_def)
  have survives: "\<forall>other\<in>set (map snd endpointsMap).
                    ep_uuid (em_endpoint item) \<notin> set (superseded_uuids other)"
    using batch_ok_survives [OF ok assms(4,5,6)] by blast
  from merge_items_saves [OF merged assms(5,6) keys survives]
  obtain saved where
    found: "find (\<lambda>y. ep_uuid y = ep_uuid (em_endpoint item)) (db_endpoints db') = Some saved"
    and risk: "ep_riskScore saved = ep_riskScore (merged_endpoint item)"
    and first: "ep_firstDetected saved = ep_firstDetected (merged_endpoint item)"
    and last: "ep_lastActive saved = ep_lastActive (merged_endpoint item)"
    by blast
  have "risk_rank (ep_riskScore saved) =
           Max (set (map (\<lambda>e. risk_rank (ep_riskScore e)) (merged_set item)))"
    unfolding risk by (rule merged_endpoint_risk)
  moreover have "ep_riskScore saved \<in> set (map ep_riskScore (merged_set item))"
    unfolding risk by (rule merged_endpoint_risk_mem)
  moreover have "(\<forall>e\<in>set (map snd (em_similarEndpoints item)). dates_in_order e) \<longrightarrow>
            ep_firstDetected saved = earliest (map ep_firstDetected (merged_set item))
          \<and> ep_lastActive saved = latest (map ep_lastActive (merged_set item))"
    unfolding first last using merged_endpoint_dates [of item] by blast
  ultimately show ?thesis using found by blast
qed

theorem uploadNewSpec_survivor_inherits_witness:
  "normalize_spec spec_env0 (spec_of_paths [''/a/{x}/{y}'']) YAML ''s'' =
     Inr (spec_of_paths [''/a/{x}/{y}''], ''s'') \<and>
   resolve_spec utils0 spec_env0 merge_db (spec_of_paths [''/a/{x}/{y}'']) ''petstore'' YAML ''s'' =
     Inr (petstore_doc [''api.test''], [(''new-0'', survivor_item)]) \<and>
   uploadNewSpec utils0 spec_env0 merge_db (spec_of_paths [''/a/{x}/{y}'']) ''petstore'' YAML ''s'' False =
     (Inr (), db_of [petstore_doc [''api.test'']] [merged_row] []) \<and>
   map (\<lambda>e. ep_uuid e) (db_endpoints merge_db) = [''i1'', ''i2'', ''i3''] \<and>
   uuidv4 spec_env0 0 = ''new-0'' \<and>
   ep_uuid (em_endpoint survivor_item) = ''new-0'' \<and>
   map snd (em_similarEndpoints survivor_item) = [stored_c, stored_d, stored_u] \<and>
   dates_in_order stored_c \<and> dates_in_order stored_d \<and> dates_in_order stored_u \<and>
   map ep_riskScore (merged_set survivor_item) = [None, Some HIGH, Some LOW, Some MEDIUM] \<and>
   map ep_firstDetected (merged_set survivor_item) = [None, Some 5, Some 3, None] \<and>
   map ep_lastActive (merged_set survivor_item) = [None, Some 9, Some 7, None] \<and>
   (\<exists>saved. find (\<lambda>e. ep_uuid e = ''new-0'')
               (db_endpoints (db_of [petstore_doc [''api.test'']] [merged_row] [])) = Some saved
      \<and> ep_riskScore saved = Some HIGH
      \<and> ep_firstDetected saved = Some 3
      \<and> ep_lastActive saved = Some 9)"
proof -
  let ?spec = "spec_of_paths [''/a/{x}/{y}'']"
  let ?db' = "db_of [petstore_doc [''api.test'']] [merged_row] []"
  have 1: "normalize_spec spec_env0 ?spec YAML ''s'' = Inr (?spec, ''s'')"
    by code_simp
  have 2: "resolve_spec utils0 spec_env0 merge_db ?spec ''petstore'' YAML ''s'' =
             Inr (petstore_doc [''api.test''], [(''new-0'', survivor_item)])"
    by code_simp
  have 3: "uploadNewSpec utils0 spec_env0 merge_db ?spec ''petstore'' YAML ''s'' False =
             (Inr (), ?db')"
    by code_simp
  have stored: "map (\<lambda>e. ep_uuid e) (db_endpoints merge_db) = [''i1'', ''i2'', ''i3'']"
    by code_simp
  have u0: "uuidv4 spec_env0 0 = ''new-0''" by code_simp
  have 4: "\<forall>n. uuidv4 spec_env0 n \<notin> set (map (\<lambda>e. ep_uuid e) (db_endpoints merge_db))"
    unfolding stored by (simp add: spec_env0_def)
  have 5: "survivor_item \<in> set (map snd [(''new-0'', survivor_item)])" by simp
  have sim: "map snd (em_similarEndpoints survivor_item) = [stored_c, stored_d, stored_u]"
    by (simp add: survivor_item_def)
  have 6: "em_similarEndpoints survivor_item \<noteq> []" by (simp add: survivor_item_def)
  have k: "ep_uuid (em_endpoint survivor_item) = ''new-0''" by code_simp
  have d1: "dates_in_order stored_c" by code_simp
  have d2: "dates_in_order stored_d" by code_simp
  have d3: "dates_in_order stored_u" by code_simp
  have 8: "\<forall>e\<in>set (map snd (em_similarEndpoints survivor_item)). dates_in_order e"
    by (simp add: sim d1 d2 d3)
  have risks: "map ep_riskScore (merged_set survivor_item) = [None, Some HIGH, Some LOW, Some MEDIUM]"
    by code_simp
  have firsts: "map ep_firstDetected (merged_set survivor_item) = [None, Some 5, Some 3, None]"
    by code_simp
  have lasts: "map ep_lastActive (merged_set survivor_item) = [None, Some 9, Some 7, None]"
    by code_simp
  have rank: "Max (set (map (\<lambda>e. risk_rank (ep_riskScore e)) (merged_set survivor_item))) =
                risk_rank (Some HIGH)"
    by code_simp
  have e: "earliest [None, Some 5, Some 3, None] = Some 3" by code_simp
  have l: "latest [None, Some 9, Some 7, None] = Some 9" by code_simp
  from uploadNewSpec_survivor_inherits [OF 1 2 3 4 5 6]
  obtain saved where
    found: "find (\<lambda>e. ep_uuid e = ep_uuid (em_endpoint survivor_item)) (db_endpoints ?db') = Some saved"
    and r: "risk_rank (ep_riskScore saved) =
              Max (set (map (\<lambda>e. risk_rank (ep_riskScore e)) (merged_set survivor_item)))"
    and mem: "ep_riskScore saved \<in> set (map ep_riskScore (merged_set survivor_item))"
    and dates: "(\<forall>e\<in>set (map snd (em_similarEndpoints survivor_item)). dates_in_order e) \<longrightarrow>
            ep_firstDetected saved = earliest (map ep_firstDetected (merged_set survivor_item))
          \<and> ep_lastActive saved = latest (map ep_lastActive (merged_set survivor_item))"
    by (elim exE conjE)
  have "ep_riskScore saved = Some HIGH"
    using r mem unfolding rank risks by (auto simp: risk_rank_def)
  moreover have "ep_firstDetected saved = Some 3" "ep_lastActive saved = Some 9"
    using dates 8 by (simp_all add: firsts lasts e l)
  ultimately have "\<exists>saved. find (\<lambda>e. ep_uuid e = ''new-0'') (db_endpoints ?db') = Some saved
      \<and> ep_riskScore saved = Some HIGH
      \<and> ep_firstDetected saved = Some 3
      \<and> ep_lastActive saved = Some 9"
    using found unfolding k by blast
  with 1 2 3 stored u0 k sim d1 d2 d3 risks firsts lasts show ?thesis by (intro conjI)
qed

text \<open>
  Claim C3 as stated fails, in two ways. For the manual path edit,
  \<^verbatim>\<open>updateEndpointsFromMap\<close> sets the survivor's risk score to \<^verbatim>\<open>RiskScore.NONE\<close> and
  hands the superseded endpoints to \<^verbatim>\<open>deleteEndpointsBatch\<close>; neither the risk
  score nor the dates of a superseded endpoint reach the survivor. Here the
  superseded endpoint has the score \<open>HIGH\<close> and the dates 5 and 9. And in
  \<^verbatim>\<open>uploadNewSpec\<close> both dates of a superseded endpoint widen both ends of the
  window: where the stored endpoint \<^verbatim>\<open>/b/c\<close> was first detected at 5 and last
  active at 3, the survivor \<^verbatim>\<open>/b/{x}\<close> is saved with the first date 3 and the last
  date 5.
\<close>

theorem inheritance_counterexample:
  "updateEndpointsFromMap spec_env0 (db_of [] [stored_c] [])
     [(''new-0'', \<lparr> em_endpoint = candidate ''new-0'' ''/a/{x}/c'',
                    em_similarEndpoints = [(''i1'', stored_c)] \<rparr>)]
   = Inr (db_of [] [(candidate ''new-0'' ''/a/{x}/c'')\<lparr>ep_riskScore := Some NONE\<rparr>] [],
          [(''new-0'', \<lparr> em_endpoint = (candidate ''new-0'' ''/a/{x}/c'')\<lparr>ep_riskScore := Some NONE\<rparr>,
                         em_similarEndpoints = [(''i1'', stored_c)] \<rparr>)])
   \<and> ep_riskScore stored_c = Some HIGH
   \<and> risk_rank (Some NONE) < risk_rank (Some HIGH)
   \<and> ep_firstDetected ((candidate ''new-0'' ''/a/{x}/c'')\<lparr>ep_riskScore := Some NONE\<rparr>) = None
   \<and> ep_firstDetected stored_c = Some 5
   \<and> uploadNewSpec utils0 spec_env0 (db_of [] [stored_backwards] []) (spec_of_paths [''/b/{x}''])
        ''petstore'' YAML ''s'' False
     = (Inr (), db_of [petstore_doc [''api.test'']]
                  [stored_endpoint ''new-0'' ''/b/{x}'' (Some ''petstore'') (Some LOW) (Some 3) (Some 5)]
                  [])
   \<and> ep_firstDetected stored_backwards = Some 5
   \<and> ep_lastActive stored_backwards = Some 3"
  by code_simp

section \<open>A conflict of ownership leaves the database untouched\<close>

lemma fold_err_error_from:
  "fold_err f s xs = Inl e \<Longrightarrow> \<exists>x\<in>set xs. \<exists>s'. f s' x = Inl e"
  by (induction xs arbitrary: s) (auto simp: bind_err_def split: sum.splits)

lemma fold_err_fails:
  "x \<in> set xs \<Longrightarrow> \<forall>s. \<exists>e. f s x = Inl e \<Longrightarrow> \<exists>e. fold_err f s xs = Inl e"
proof (induction xs arbitrary: s)
  case Nil
  then show ?case by simp
next
  case (Cons y ys)
  show ?case
  proof (cases "f s y")
    case (Inl e)
    then show ?thesis by (simp add: bind_err_def)
  next
    case (Inr s')
    then have "x \<noteq> y" using Cons.prems(2) by (metis sum.distinct(1))
    then have "x \<in> set ys" using Cons.prems(1) by simp
    from Cons.IH [OF this Cons.prems(2), of s'] Inr show ?thesis by (simp add: bind_err_def)
  qed
qed

lemma resolve_host_error:
  "resolve_host u env db existingSpec p pathRegex m st h = Inl e \<Longrightarrow> is_conflict e"
  by (auto simp: resolve_host_def Let_def split: prod.splits option.splits if_splits)

lemma resolve_host_conflict:
  assumes "findOne db p m h = Some ep"
      and "ep_openapiSpecName ep = Some owner" and "owner \<noteq> []"
      and "find (\<lambda>s. spec_name s = owner) (db_specs db) = Some doc"
      and "\<not> spec_isAutoGenerated doc"
  shows "\<exists>e. resolve_host u env db existingSpec p pathRegex m st h = Inl e"
  using assms by (simp add: resolve_host_def load_openapiSpec_def split: prod.splits)

lemma resolve_method_error:
  assumes "getServersV3 env specObject p m \<noteq> []"
      and "resolve_method u env db specObject existingSpec p pathRegex st m = Inl e"
  shows "is_conflict e"
proof -
  obtain em hs n where st: "st = (em, hs, n)" by (cases st)
  from assms st
  have "fold_err (resolve_host u env db existingSpec p pathRegex (toUpperCase m)) (em, n)
          (getHostsV3 env (getServersV3 env specObject p m)) = Inl e"
    by (auto simp: resolve_method_def Let_def bind_err_def split: sum.splits prod.splits)
  from fold_err_error_from [OF this] show ?thesis
    by (auto dest: resolve_host_error)
qed

lemma resolve_method_conflict:
  assumes "h \<in> set (getHostsV3 env (getServersV3 env specObject p m))"
      and "\<forall>st. \<exists>e. resolve_host u env db existingSpec p pathRegex (toUpperCase m) st h = Inl e"
  shows "\<exists>e. resolve_method u env db specObject existingSpec p pathRegex st m = Inl e"
proof -
  obtain em hs n where st: "st = (em, hs, n)" by (cases st)
  from fold_err_fails [OF assms(1), of "resolve_host u env db existingSpec p pathRegex (toUpperCase m)"
         "(em, n)"] assms(2)
  obtain e where "fold_err (resolve_host u env db existingSpec p pathRegex (toUpperCase m)) (em, n)
          (getHostsV3 env (getServersV3 env specObject p m)) = Inl e"
    by blast
  then show ?thesis using st by (simp add: resolve_method_def Let_def bind_err_def)
qed

lemma resolve_path_error:
  assumes "object_keys (map_of (entries paths) p) = Inr keys"
      and "\<forall>m\<in>set (methods_of env paths p). getServersV3 env specObject p m \<noteq> []"
      and "resolve_path u env db specObject paths existingSpec st p = Inl e"
  shows "is_conflict e"
proof -
  from assms(1,3)
  have "fold_err (resolve_method u env db specObject existingSpec p (getPathRegex u p)) st
          (methods_of env paths p) = Inl e"
    by (simp add: resolve_path_def methods_of_def bind_err_def)
  from fold_err_error_from [OF this] assms(2) show ?thesis
    by (auto dest: resolve_method_error)
qed

lemma resolve_path_conflict:
  assumes "m \<in> set (methods_of env paths p)"
      and "\<forall>st. \<exists>e. resolve_method u env db specObject existingSpec p (getPathRegex u p) st m = Inl e"
  shows "\<exists>e. resolve_path u env db specObject paths existingSpec st p = Inl e"
proof (cases "object_keys (map_of (entries paths) p)")
  case (Inl e)
  then show ?thesis by (simp add: resolve_path_def bind_err_def)
next
  case (Inr keys)
  from fold_err_fails [OF assms(1), of "resolve_method u env db specObject existingSpec p (getPathRegex u p)" st]
       assms(2)
  obtain e where "fold_err (resolve_method u env db specObject existingSpec p (getPathRegex u p)) st
          (methods_of env paths p) = Inl e"
    by blast
  then show ?thesis using Inr by (simp add: resolve_path_def methods_of_def bind_err_def)
qed

text \<open>
  Claim C1. Let the uploaded spec pass the version check, the validation and the
  conversion, let every path of it hold an object and every operation have
  servers. If one of its operations, on one of its hosts, is the exact path,
  method and host of a stored endpoint that belongs to a spec document which is
  not auto-generated, then \<^verbatim>\<open>uploadNewSpec\<close> ends with \<^verbatim>\<open>Error409Conflict\<close> and the
  database is the one it started with: no row of any table is created, changed
  or deleted.
\<close>

theorem uploadNewSpec_conflict:
  assumes "normalize_spec env specObject extension specString = Inr (specObject', specString')"
      and "get_property specObject' ''paths'' = Inr (Some paths)"
      and "object_keys (Some paths) = Inr pathKeys"
      and "\<forall>p\<in>set pathKeys. \<exists>keys. object_keys (map_of (entries paths) p) = Inr keys"
      and "\<forall>p\<in>set pathKeys. \<forall>m\<in>set (methods_of env paths p).
             getServersV3 env specObject' p m \<noteq> []"
      and "path' \<in> set pathKeys"
      and "method' \<in> set (methods_of env paths path')"
      and "host' \<in> set (getHostsV3 env (getServersV3 env specObject' path' method'))"
      and "findOne db path' (toUpperCase method') host' = Some stored"
      and "ep_openapiSpecName stored = Some owner" and "owner \<noteq> []"
      and "find (\<lambda>s. spec_name s = owner) (db_specs db) = Some doc"
      and "\<not> spec_isAutoGenerated doc"
  shows "\<exists>msg. uploadNewSpec u env db specObject fileName extension specString existingQueryRunner
           = (Inl (Error409Conflict msg), db)"
proof -
  let ?spec = "existing_spec env db fileName extension specString'"
  let ?f = "resolve_path u env db specObject' paths ?spec"
  have host: "\<forall>st. \<exists>e. resolve_host u env db ?spec path' (getPathRegex u path')
                          (toUpperCase method') st host' = Inl e"
    using resolve_host_conflict [OF assms(9,10,11,12,13)] by blast
  have meth: "\<forall>st. \<exists>e. resolve_method u env db specObject' ?spec path' (getPathRegex u path') st method'
                          = Inl e"
    using resolve_method_conflict [OF assms(8) host] by blast
  have pth: "\<forall>st. \<exists>e. ?f st path' = Inl e"
    using resolve_path_conflict [OF assms(7) meth] by blast
  from fold_err_fails [of path' pathKeys ?f "([], [], 0)"] assms(6) pth
  obtain e where e: "fold_err ?f ([], [], 0) pathKeys = Inl e" by blast
  from fold_err_error_from [OF e]
  obtain p st where p: "p \<in> set pathKeys" and at: "?f st p = Inl e" by blast
  from p assms(4) obtain keys where "object_keys (map_of (entries paths) p) = Inr keys" by blast
  from resolve_path_error [OF this _ at] p assms(5) have "is_conflict e" by blast
  then obtain msg where msg: "e = Error409Conflict msg" by (cases e) auto
  have "resolve_spec u env db specObject' fileName extension specString' = Inl (Error409Conflict msg)"
    using assms(2,3) e msg by (simp add: resolve_spec_def bind_err_def Let_def)
  then have "uploadNewSpec u env db specObject fileName extension specString existingQueryRunner
               = (Inl (Error409Conflict msg), db)"
    using assms(1) by (simp add: uploadNewSpec_def)
  then show ?thesis by blast
qed

theorem uploadNewSpec_conflict_witness:
  "normalize_spec spec_env0 uploaded_spec YAML ''openapi: 3.0.0'' = Inr (uploaded_spec, ''openapi: 3.0.0'') \<and>
   get_property uploaded_spec ''paths'' = Inr (Some uploaded_paths) \<and>
   object_keys (Some uploaded_paths) = Inr [''/users/{id}'', ''/orders/{id}''] \<and>
   object_keys (map_of (entries uploaded_paths) ''/users/{id}'') = Inr [''get''] \<and>
   object_keys (map_of (entries uploaded_paths) ''/orders/{id}'') = Inr [''get'', ''summary''] \<and>
   methods_of spec_env0 uploaded_paths ''/users/{id}'' = [''get''] \<and>
   methods_of spec_env0 uploaded_paths ''/orders/{id}'' = [''get''] \<and>
   getServersV3 spec_env0 uploaded_spec ''/users/{id}'' ''get'' = [JStr ''api.test''] \<and>
   getServersV3 spec_env0 uploaded_spec ''/orders/{id}'' ''get'' = [JStr ''api.test''] \<and>
   ''/orders/{id}'' \<in> set [''/users/{id}'', ''/orders/{id}''] \<and>
   ''get'' \<in> set (methods_of spec_env0 uploaded_paths ''/orders/{id}'') \<and>
   ''api.test'' \<in> set (getHostsV3 spec_env0 (getServersV3 spec_env0 uploaded_spec ''/orders/{id}'' ''get'')) \<and>
   findOne orders_db ''/orders/{id}'' (toUpperCase ''get'') ''api.test'' =
     Some (stored_endpoint ''i1'' ''/orders/{id}'' (Some ''orders-v1'') (Some HIGH) (Some 5) (Some 9)) \<and>
   find (\<lambda>s. spec_name s = ''orders-v1'') (db_specs orders_db) =
     Some (spec_doc ''orders-v1'' ''openapi: 3.0.0'' False) \<and>
   (\<exists>msg. uploadNewSpec utils0 spec_env0 orders_db uploaded_spec ''petstore'' YAML ''openapi: 3.0.0'' False
            = (Inl (Error409Conflict msg), orders_db))"
proof -
  let ?stored = "stored_endpoint ''i1'' ''/orders/{id}'' (Some ''orders-v1'') (Some HIGH) (Some 5) (Some 9)"
  let ?doc = "spec_doc ''orders-v1'' ''openapi: 3.0.0'' False"
  have 1: "normalize_spec spec_env0 uploaded_spec YAML ''openapi: 3.0.0'' =
             Inr (uploaded_spec, ''openapi: 3.0.0'')"
    by code_simp
  have 2: "get_property uploaded_spec ''paths'' = Inr (Some uploaded_paths)"
    by code_simp
  have 3: "object_keys (Some uploaded_paths) = Inr [''/users/{id}'', ''/orders/{id}'']"
    by code_simp
  have k1: "object_keys (map_of (entries uploaded_paths) ''/users/{id}'') = Inr [''get'']"
    by code_simp
  have k2: "object_keys (map_of (entries uploaded_paths) ''/orders/{id}'') = Inr [''get'', ''summary'']"
    by code_simp
  have 4: "\<forall>p\<in>set [''/users/{id}'', ''/orders/{id}''].
             \<exists>keys. object_keys (map_of (entries uploaded_paths) p) = Inr keys"
    using k1 k2 by simp
  have m1: "methods_of spec_env0 uploaded_paths ''/users/{id}'' = [''get'']"
    by code_simp
  have m2: "methods_of spec_env0 uploaded_paths ''/orders/{id}'' = [''get'']"
    by code_simp
  have s1: "getServersV3 spec_env0 uploaded_spec ''/users/{id}'' ''get'' = [JStr ''api.test'']"
    by code_simp
  have s2: "getServersV3 spec_env0 uploaded_spec ''/orders/{id}'' ''get'' = [JStr ''api.test'']"
    by code_simp
  have 5: "\<forall>p\<in>set [''/users/{id}'', ''/orders/{id}''].
             \<forall>m\<in>set (methods_of spec_env0 uploaded_paths p).
               getServersV3 spec_env0 uploaded_spec p m \<noteq> []"
    using m1 m2 s1 s2 by simp
  have 6: "''/orders/{id}'' \<in> set [''/users/{id}'', ''/orders/{id}'']"
    by simp
  have 7: "''get'' \<in> set (methods_of spec_env0 uploaded_paths ''/orders/{id}'')"
    using m2 by simp
  have 8: "''api.test'' \<in> set (getHostsV3 spec_env0
             (getServersV3 spec_env0 uploaded_spec ''/orders/{id}'' ''get''))"
    by code_simp
  have 9: "findOne orders_db ''/orders/{id}'' (toUpperCase ''get'') ''api.test'' = Some ?stored"
    by code_simp
  have 10: "ep_openapiSpecName ?stored = Some ''orders-v1''"
    by (simp add: stored_endpoint_def)
  have 11: "''orders-v1'' \<noteq> []"
    by simp
  have 12: "find (\<lambda>s. spec_name s = ''orders-v1'') (db_specs orders_db) = Some ?doc"
    by code_simp
  have 13: "\<not> spec_isAutoGenerated ?doc"
    by (simp add: spec_doc_def)
  from uploadNewSpec_conflict [OF 1 2 3 4 5 6 7 8 9 10 11 12 13, of utils0 "''petstore''" False]
  have "\<exists>msg. uploadNewSpec utils0 spec_env0 orders_db uploaded_spec ''petstore'' YAML
                 ''openapi: 3.0.0'' False = (Inl (Error409Conflict msg), orders_db)" .
  with 1 2 3 k1 k2 m1 m2 s1 s2 6 7 8 9 12 show ?thesis by blast
qed

section \<open>The generalizer computes the occurrence fractions\<close>

lemma slot_at_count_token_same:
  "slot_at cm pos token = slot_of_count token n \<Longrightarrow>
     slot_at (count_token cm pos token) pos token = slot_of_count token (Suc n)"
  by (auto simp: slot_at_def slot_of_count_def count_token_def Let_def
           split: option.splits slot.splits if_splits)

lemma slot_at_count_token_other:
  "\<not> (i = pos \<and> t = token) \<Longrightarrow> slot_at (count_token cm pos token) i t = slot_at cm i t"
  by (auto simp: slot_at_def count_token_def Let_def split: option.splits)

lemma slot_at_count_tokens:
  "slot_at cm i t = slot_of_count t n \<Longrightarrow>
     slot_at (count_tokens cm ts i0) i t =
       slot_of_count t (n + (if i0 \<le> i \<and> i - i0 < length ts \<and> ts ! (i - i0) = t then 1 else 0))"
proof (induction ts arbitrary: cm i0 n)
  case Nil
  then show ?case by simp
next
  case (Cons a ts)
  show ?case
  proof (cases "i = i0 \<and> t = a")
    case True
    then have "slot_at (count_token cm i0 a) i t = slot_of_count t (Suc n)"
      using Cons.prems slot_at_count_token_same by simp
    from Cons.IH [OF this, of "i0 + 1"] True show ?thesis by simp
  next
    case False
    then have same: "slot_at (count_token cm i0 a) i t = slot_of_count t n"
      using Cons.prems by (simp add: slot_at_count_token_other)
    have step: "slot_at (count_tokens cm (a # ts) i0) i t =
          slot_of_count t
            (n + (if Suc i0 \<le> i \<and> i - Suc i0 < length ts \<and> ts ! (i - Suc i0) = t then 1 else 0))"
      using Cons.IH [OF same, of "i0 + 1"] by simp
    consider "i < i0" | "i = i0" | "Suc i0 \<le> i" by linarith
    then show ?thesis
    proof cases
      case 1
      then show ?thesis using step by simp
    next
      case 2
      then show ?thesis using step False by simp
    next
      case 3
      then have "i - i0 = Suc (i - Suc i0)" by simp
      then show ?thesis using step 3 by simp
    qed
  qed
qed

lemma occurrences_Cons:
  "occurrences u (a # traces) i t =
     (if i < length (getPathTokens u (tr_path a)) \<and> getPathTokens u (tr_path a) ! i = t
      then 1 else 0) + occurrences u traces i t"
  by (simp add: occurrences_def)

lemma slot_at_foldl:
  "slot_at cm0 i t = slot_of_count t n \<Longrightarrow>
   slot_at (foldl (\<lambda>cm trace. count_tokens cm (getPathTokens u (tr_path trace)) 0) cm0 traces) i t =
     slot_of_count t (n + occurrences u traces i t)"
proof (induction traces arbitrary: cm0 n)
  case Nil
  then show ?case by (simp add: occurrences_def)
next
  case (Cons a traces)
  let ?d = "if i < length (getPathTokens u (tr_path a)) \<and> getPathTokens u (tr_path a) ! i = t
            then 1 else 0 :: nat"
  have "slot_at (count_tokens cm0 (getPathTokens u (tr_path a)) 0) i t = slot_of_count t (n + ?d)"
    using slot_at_count_tokens [OF Cons.prems, of "getPathTokens u (tr_path a)" 0] by simp
  from Cons.IH [OF this] show ?case by (simp add: occurrences_Cons add.assoc)
qed

lemma slot_at_getCounterMap:
  "slot_at (getCounterMap u traces) i t = slot_of_count t (occurrences u traces i t)"
proof -
  have "slot_at Map.empty i t = slot_of_count t 0"
    by (simp add: slot_at_def slot_of_count_def)
  from slot_at_foldl [OF this, of u traces] show ?thesis by (simp add: getCounterMap_def)
qed

lemma occurrences_own:
  assumes "t \<in> set traces" and "i < length (getPathTokens u (tr_path t))"
  shows "0 < occurrences u traces i (getPathTokens u (tr_path t) ! i)"
  using assms(1)
proof (induction traces)
  case Nil
  then show ?case by simp
next
  case (Cons a traces)
  show ?case
  proof (cases "t = a")
    case True
    then show ?thesis using assms(2) by (simp add: occurrences_Cons)
  next
    case False
    then have "t \<in> set traces" using Cons.prems by simp
    from Cons.IH [OF this] show ?thesis by (simp add: occurrences_Cons)
  qed
qed

text \<open>What the inner loop of \<^verbatim>\<open>getDistinctPaths\<close> reads for a token counted in the sample.\<close>

lemma quotient_of_counted:
  assumes "0 < occurrences u traces i token"
  shows "\<exists>m. getCounterMap u traces i = Some m \<and>
           js_div (case m token of
                     None \<Rightarrow> NaN
                   | Some (Count c) \<Rightarrow> Num (of_nat c)
                   | Some NonNumeric \<Rightarrow> NaN) (length traces)
             = tokenPercentOccurence u traces i token"
proof -
  let ?n = "occurrences u traces i token"
  have len: "0 < length traces"
  proof (rule ccontr)
    assume "\<not> 0 < length traces"
    then have "traces = []" by simp
    then show False using assms by (simp add: occurrences_def)
  qed
  have s: "slot_at (getCounterMap u traces) i token =
             (if inherited token then Some NonNumeric else Some (Count ?n))"
    using assms by (simp add: slot_at_getCounterMap slot_of_count_def)
  then obtain m where m: "getCounterMap u traces i = Some m"
    and mt: "m token = (if inherited token then Some NonNumeric else Some (Count ?n))"
    by (cases "getCounterMap u traces i") (auto simp: slot_at_def split: if_splits)
  have "js_div (case m token of
                     None \<Rightarrow> NaN
                   | Some (Count c) \<Rightarrow> Num (of_nat c)
                   | Some NonNumeric \<Rightarrow> NaN) (length traces)
             = tokenPercentOccurence u traces i token"
    using mt len by (simp add: tokenPercentOccurence_def occurrenceFraction_def)
  with m show ?thesis by blast
qed

lemma path_loop_segments:
  assumes "\<forall>j<length ts. \<exists>m. cm (i + j) = Some m \<and>
             js_div (case m (ts ! j) of
                       None \<Rightarrow> NaN
                     | Some (Count c) \<Rightarrow> Num (of_nat c)
                     | Some NonNumeric \<Rightarrow> NaN) numTraces = f (i + j) (ts ! j)"
  shows "\<exists>k'. path_loop cm numTraces ts i (p, tot, k) =
           Inr (p @ concat (segments_from f ts i k), total_from f ts i tot, k')"
  using assms
proof (induction ts arbitrary: i p tot k)
  case Nil
  then show ?case by simp
next
  case (Cons token rest)
  from Cons.prems have "\<exists>m. cm (i + 0) = Some m \<and>
             js_div (case m ((token # rest) ! 0) of
                       None \<Rightarrow> NaN
                     | Some (Count c) \<Rightarrow> Num (of_nat c)
                     | Some NonNumeric \<Rightarrow> NaN) numTraces = f (i + 0) ((token # rest) ! 0)"
    by blast
  then obtain m where m: "cm i = Some m"
    and q: "js_div (case m token of
                       None \<Rightarrow> NaN
                     | Some (Count c) \<Rightarrow> Num (of_nat c)
                     | Some NonNumeric \<Rightarrow> NaN) numTraces = f i token"
    by auto
  have r: "\<forall>j<length rest. \<exists>m. cm (Suc i + j) = Some m \<and>
             js_div (case m (rest ! j) of
                       None \<Rightarrow> NaN
                     | Some (Count c) \<Rightarrow> Num (of_nat c)
                     | Some NonNumeric \<Rightarrow> NaN) numTraces = f (Suc i + j) (rest ! j)"
  proof (intro allI impI)
    fix j assume "j < length rest"
    then have "Suc j < length (token # rest)" by simp
    with Cons.prems have "\<exists>m. cm (i + Suc j) = Some m \<and>
             js_div (case m ((token # rest) ! Suc j) of
                       None \<Rightarrow> NaN
                     | Some (Count c) \<Rightarrow> Num (of_nat c)
                     | Some NonNumeric \<Rightarrow> NaN) numTraces = f (i + Suc j) ((token # rest) ! Suc j)"
      by blast
    then show "\<exists>m. cm (Suc i + j) = Some m \<and>
             js_div (case m (rest ! j) of
                       None \<Rightarrow> NaN
                     | Some (Count c) \<Rightarrow> Num (of_nat c)
                     | Some NonNumeric \<Rightarrow> NaN) numTraces = f (Suc i + j) (rest ! j)"
      by simp
  qed
  show ?case
  proof (cases "js_less (f i token) THRESHOLD")
    case True
    from Cons.IH [OF r, of "p @ ''/{param'' @ string_of_nat k @ ''}''" "js_add tot (f i token)" "k + 1"]
    show ?thesis using True m q by (simp add: Let_def)
  next
    case False
    from Cons.IH [OF r, of "p @ ''/'' @ token" "js_add tot (f i token)" k]
    show ?thesis using False m q by (simp add: Let_def)
  qed
qed

lemma generalize_trace_sample:
  assumes "t \<in> set traces"
  shows "generalize_trace u (getCounterMap u traces) (length traces) t =
           Inr (template u traces t, confidence u traces t)"
proof -
  let ?ts = "getPathTokens u (tr_path t)"
  let ?cm = "getCounterMap u traces"
  have a: "\<forall>j<length ?ts. \<exists>m. ?cm (0 + j) = Some m \<and>
             js_div (case m (?ts ! j) of
                       None \<Rightarrow> NaN
                     | Some (Count c) \<Rightarrow> Num (of_nat c)
                     | Some NonNumeric \<Rightarrow> NaN) (length traces)
               = tokenPercentOccurence u traces (0 + j) (?ts ! j)"
    using quotient_of_counted [OF occurrences_own [OF assms]] by simp
  from path_loop_segments [OF a, of "[]" "Num 0" 1]
  obtain k' where "path_loop ?cm (length traces) ?ts 0 ([], Num 0, 1) =
      Inr (concat (segments_from (tokenPercentOccurence u traces) ?ts 0 1),
           total_from (tokenPercentOccurence u traces) ?ts 0 (Num 0), k')"
    by auto
  then show ?thesis
    by (simp add: generalize_trace_def bind_err_def template_def template_segments_def
          confidence_def Let_def)
qed

lemma segments_from_length: "length (segments_from f ts i k) = length ts"
  by (induction ts arbitrary: i k) auto

lemma segments_from_literal:
  "j < length ts \<Longrightarrow> \<not> js_less (f (i + j) (ts ! j)) THRESHOLD \<Longrightarrow>
     segments_from f ts i k ! j = ''/'' @ ts ! j"
proof (induction ts arbitrary: i k j)
  case Nil
  then show ?case by simp
next
  case (Cons a ts)
  show ?case
  proof (cases j)
    case 0
    then show ?thesis using Cons.prems by simp
  next
    case (Suc j')
    then have "j' < length ts" "\<not> js_less (f (Suc i + j') (ts ! j')) THRESHOLD"
      using Cons.prems by auto
    from Cons.IH [OF this] show ?thesis using Suc by simp
  qed
qed

lemma segments_from_all_literal:
  "\<forall>j<length ts. \<not> js_less (f (i + j) (ts ! j)) THRESHOLD \<Longrightarrow>
     segments_from f ts i k = map (\<lambda>token. ''/'' @ token) ts"
proof (induction ts arbitrary: i k)
  case Nil
  then show ?case by simp
next
  case (Cons a ts)
  have "\<not> js_less (f i a) THRESHOLD" using Cons.prems by force
  moreover have "\<forall>j<length ts. \<not> js_less (f (Suc i + j) (ts ! j)) THRESHOLD"
    using Cons.prems by force
  ultimately show ?case using Cons.IH [of "Suc i" k] by simp
qed

lemma total_from_fractions:
  "\<forall>j<length ts. f (i + j) (ts ! j) = Num (g (i + j) (ts ! j)) \<Longrightarrow>
     total_from f ts i (Num a) = Num (a + fraction_sum g ts i)"
proof (induction ts arbitrary: i a)
  case Nil
  then show ?case by simp
next
  case (Cons b ts)
  have "f i b = Num (g i b)" using Cons.prems by force
  moreover have "\<forall>j<length ts. f (Suc i + j) (ts ! j) = Num (g (Suc i + j) (ts ! j))"
    using Cons.prems by force
  ultimately show ?case using Cons.IH [of "Suc i" "a + g i b"] by (simp add: add.assoc)
qed

lemma fraction_sum_constant:
  "\<forall>j<length ts. g (i + j) (ts ! j) = c \<Longrightarrow> fraction_sum g ts i = of_nat (length ts) * c"
proof (induction ts arbitrary: i)
  case Nil
  then show ?case by simp
next
  case (Cons a ts)
  have "g i a = c" using Cons.prems by force
  moreover have "\<forall>j<length ts. g (Suc i + j) (ts ! j) = c" using Cons.prems by force
  ultimately show ?case using Cons.IH [of "Suc i"] by (simp add: algebra_simps)
qed

text \<open>
  For a trace with at least one token, none of which names an inherited member,
  the average the code forms is the average occurrence fraction.
\<close>

lemma confidence_average:
  assumes "getPathTokens u (tr_path t) \<noteq> []"
      and "\<forall>token\<in>set (getPathTokens u (tr_path t)). \<not> inherited token"
  shows "confidence u traces t = Num (average_fraction u traces t)"
proof -
  let ?ts = "getPathTokens u (tr_path t)"
  have "\<forall>j<length ?ts. tokenPercentOccurence u traces (0 + j) (?ts ! j) =
          Num (occurrenceFraction u traces (0 + j) (?ts ! j))"
    using assms(2) by (simp add: tokenPercentOccurence_def)
  from total_from_fractions [OF this, of 0]
  show ?thesis using assms(1) by (simp add: confidence_def average_fraction_def)
qed

section \<open>The threshold of the generalizer\<close>

text \<open>
  Claim C4, as the code decides it. In a sample of exactly 10 traces, a segment
  whose token stands at its position in exactly 1 of the 10 traces has the
  occurrence fraction 0.1, which is not below the threshold: the segment is kept
  as the literal token, not rendered as a placeholder. A segment whose token is
  the same in all 10 traces is kept literal too. (The template of a trace is the
  concatenation of \<open>template_segments\<close>.)
\<close>

theorem tenth_is_literal:
  assumes "length traces = 10" and "t \<in> set traces"
      and "i < length (getPathTokens u (tr_path t))"
      and "occurrences u traces i (getPathTokens u (tr_path t) ! i) = 1 \<or>
           occurrences u traces i (getPathTokens u (tr_path t) ! i) = 10"
  shows "generalize_trace u (getCounterMap u traces) (length traces) t =
           Inr (concat (template_segments u traces t), confidence u traces t)
       \<and> length (template_segments u traces t) = length (getPathTokens u (tr_path t))
       \<and> template_segments u traces t ! i = ''/'' @ getPathTokens u (tr_path t) ! i"
proof -
  let ?ts = "getPathTokens u (tr_path t)"
  have "occurrenceFraction u traces i (?ts ! i) = 1 / 10 \<or>
        occurrenceFraction u traces i (?ts ! i) = 1"
    using assms(1,4) by (auto simp: occurrenceFraction_def)
  then have "\<not> js_less (tokenPercentOccurence u traces (0 + i) (?ts ! i)) THRESHOLD"
    by (auto simp: tokenPercentOccurence_def THRESHOLD_def)
  from segments_from_literal [of i ?ts "tokenPercentOccurence u traces" 0 1] assms(3) this
  have "template_segments u traces t ! i = ''/'' @ ?ts ! i"
    by (simp add: template_segments_def)
  moreover have "length (template_segments u traces t) = length ?ts"
    by (simp add: template_segments_def segments_from_length)
  moreover have "generalize_trace u (getCounterMap u traces) (length traces) t =
           Inr (concat (template_segments u traces t), confidence u traces t)"
    using generalize_trace_sample [OF assms(2)] by (simp add: template_def)
  ultimately show ?thesis by blast
qed

theorem tenth_is_literal_witness:
  "length sample10 = 10 \<and> sample_trace ''/items/42'' \<in> set sample10 \<and>
   getPathTokens utils0 (tr_path (sample_trace ''/items/42'')) = [''items'', ''42''] \<and>
   occurrences utils0 sample10 1 ''42'' = 1 \<and>
   generalize_trace utils0 (getCounterMap utils0 sample10) (length sample10)
       (sample_trace ''/items/42'') =
     Inr (concat (template_segments utils0 sample10 (sample_trace ''/items/42'')),
          confidence utils0 sample10 (sample_trace ''/items/42'')) \<and>
   template_segments utils0 sample10 (sample_trace ''/items/42'') ! 1 = ''/42''"
proof -
  let ?t = "sample_trace ''/items/42''"
  have 1: "length sample10 = 10" by (simp add: sample10_def)
  have 2: "?t \<in> set sample10" by (simp add: sample10_def)
  have toks: "getPathTokens utils0 (tr_path ?t) = [''items'', ''42'']" by code_simp
  have 3: "1 < length (getPathTokens utils0 (tr_path ?t))" by (simp add: toks)
  have occ: "occurrences utils0 sample10 1 ''42'' = 1" by code_simp
  have nth: "getPathTokens utils0 (tr_path ?t) ! 1 = ''42''" by (simp add: toks)
  have 4: "occurrences utils0 sample10 1 (getPathTokens utils0 (tr_path ?t) ! 1) = 1 \<or>
           occurrences utils0 sample10 1 (getPathTokens utils0 (tr_path ?t) ! 1) = 10"
    unfolding nth using occ by (rule disjI1)
  from tenth_is_literal [OF 1 2 3 4]
  have "generalize_trace utils0 (getCounterMap utils0 sample10) (length sample10) ?t =
          Inr (concat (template_segments utils0 sample10 ?t), confidence utils0 sample10 ?t) \<and>
        template_segments utils0 sample10 ?t ! 1 = ''/42''"
    unfolding nth by simp
  with 1 2 toks occ show ?thesis by blast
qed

text \<open>
  Claim C4 as stated fails on this sample of 10 traces: nine of \<^verbatim>\<open>/items/list\<close> and
  one of \<^verbatim>\<open>/items/42\<close>. The token \<^verbatim>\<open>42\<close> stands at its position in exactly 1 of the
  10 traces, and the template of its trace is \<^verbatim>\<open>/items/42\<close>, with no placeholder.
\<close>

theorem tenth_counterexample:
  "length sample10 = 10 \<and>
   occurrences utils0 sample10 1 ''42'' = 1 \<and>
   occurrenceFraction utils0 sample10 1 ''42'' = 1 / 10 \<and>
   generalize_trace utils0 (getCounterMap utils0 sample10) (length sample10)
       (sample_trace ''/items/42'') = Inr (''/items/42'', Num (11 / 20))"
proof -
  let ?t = "sample_trace ''/items/42''"
  have 1: "length sample10 = 10" by (simp add: sample10_def)
  have 2: "?t \<in> set sample10" by (simp add: sample10_def)
  have occ: "occurrences utils0 sample10 1 ''42'' = 1" by code_simp
  have frac: "occurrenceFraction utils0 sample10 1 ''42'' = 1 / 10" by code_simp
  have tpl: "template utils0 sample10 ?t = ''/items/42''" by code_simp
  have conf: "confidence utils0 sample10 ?t = Num (11 / 20)" by code_simp
  have "generalize_trace utils0 (getCounterMap utils0 sample10) (length sample10) ?t =
          Inr (''/items/42'', Num (11 / 20))"
    using generalize_trace_sample [OF 2, of utils0] tpl conf by simp
  with 1 occ frac show ?thesis by blast
qed

section \<open>A sample of identical paths\<close>

lemma occurrences_identical:
  assumes "\<forall>t\<in>set traces. tr_path t = p" and "i < length (getPathTokens u p)"
  shows "occurrences u traces i (getPathTokens u p ! i) = length traces"
proof -
  have "filter (\<lambda>t. i < length (getPathTokens u (tr_path t)) \<and>
                     getPathTokens u (tr_path t) ! i = getPathTokens u p ! i) traces = traces"
    using assms by (simp add: filter_id_conv)
  then show ?thesis by (simp add: occurrences_def)
qed

lemma distinct_paths_loop_same:
  assumes "\<forall>t\<in>set xs. generalize_trace u cm n t = Inr (p, Num 1)"
  shows "distinct_paths_loop u cm n xs [(p, Num 1)] = Inr [(p, Num 1)]"
  using assms by (induction xs) (simp_all add: bind_err_def record_path_def)

text \<open>
  Let the sample be non-empty and all its traces have the same path \<open>p\<close>, a
  literal path in the form the tokenizer reads it (at least one token, each
  preceded by a slash), no token of which names an inherited member. Then the
  only template is \<open>p\<close> itself, with no segment replaced, its confidence is 1, and
  the generalizer proposes exactly \<open>p\<close>.
\<close>

lemma identical_paths_plain_tokens:
  assumes "find_traces db endpointId = traces" and "traces \<noteq> []"
      and "\<forall>t\<in>set traces. tr_path t = p"
      and "getPathTokens u p \<noteq> []"
      and "concat (map (\<lambda>token. ''/'' @ token) (getPathTokens u p)) = p"
      and "\<forall>token\<in>set (getPathTokens u p). \<not> inherited token"
  shows "getDistinctPaths u (getCounterMap u traces) traces (length traces) = Inr [(p, Num 1)]
       \<and> getTopSuggestedPaths u db endpointId = Inr [p]"
proof -
  let ?ts = "getPathTokens u p"
  let ?f = "tokenPercentOccurence u traces"
  have n: "0 < length traces" using assms(2) by simp
  have frac: "\<forall>j<length ?ts. occurrenceFraction u traces (0 + j) (?ts ! j) = 1"
    using occurrences_identical [OF assms(3)] n by (simp add: occurrenceFraction_def)
  have lit: "\<forall>j<length ?ts. \<not> js_less (?f (0 + j) (?ts ! j)) THRESHOLD"
    by (simp add: tokenPercentOccurence_def THRESHOLD_def)
       (use frac in \<open>auto simp: THRESHOLD_def\<close>)
  have gen: "\<forall>t\<in>set traces.
               generalize_trace u (getCounterMap u traces) (length traces) t = Inr (p, Num 1)"
  proof
    fix t assume t: "t \<in> set traces"
    then have path: "tr_path t = p" using assms(3) by blast
    have "template u traces t = p"
      using segments_from_all_literal [OF lit, of 1] assms(5)
      by (simp add: template_def template_segments_def path)
    moreover have "confidence u traces t = Num 1"
      using confidence_average [of u t traces] fraction_sum_constant [OF frac] assms(4,6)
      by (simp add: average_fraction_def path)
    ultimately show "generalize_trace u (getCounterMap u traces) (length traces) t = Inr (p, Num 1)"
      using generalize_trace_sample [OF t, of u] by simp
  qed
  obtain t rest where tr: "traces = t # rest" using assms(2) by (cases traces) auto
  have "\<forall>t\<in>set rest. generalize_trace u (getCounterMap u traces) (length traces) t = Inr (p, Num 1)"
    using gen tr by simp
  from distinct_paths_loop_same [OF this]
  have dp: "getDistinctPaths u (getCounterMap u traces) traces (length traces) = Inr [(p, Num 1)]"
    using gen tr
    by (subst (3) tr) (simp add: getDistinctPaths_def bind_err_def record_path_def)
  then have "getTopSuggestedPaths u db endpointId = Inr [p]"
    using assms(1) by (simp add: getTopSuggestedPaths_def Let_def bind_err_def js_sort_def)
  with dp show ?thesis by blast
qed

text \<open>
  Claim C5 fails on a sample of three traces of the path \<^verbatim>\<open>/constructor\<close>. The
  token stands at its position in all three traces, so its occurrence fraction
  is 1, and the path is proposed unchanged. But the token names a member that
  the counter object inherits: what \<^verbatim>\<open>getCounterMap\<close> stores for it is no number,
  and the confidence recorded for the path is \<^verbatim>\<open>NaN\<close>, not 1.
\<close>

theorem inherited_token_confidence:
  "find_traces (db_of [] [] sample_constructor) ''e1'' = sample_constructor \<and>
   getPathTokens utils0 ''/constructor'' = [''constructor''] \<and>
   occurrenceFraction utils0 sample_constructor 0 ''constructor'' = 1 \<and>
   getDistinctPaths utils0 (getCounterMap utils0 sample_constructor) sample_constructor
       (length sample_constructor) = Inr [(''/constructor'', NaN)] \<and>
   getTopSuggestedPaths utils0 (db_of [] [] sample_constructor) ''e1'' = Inr [''/constructor'']"
  by code_simp

section \<open>The ranking of the templates\<close>

lemma keys_record_path:
  "fst ` set (record_path dp k v) = insert k (fst ` set dp)"
proof (cases "map_of dp k")
  case None
  then show ?thesis by (simp add: record_path_def key_set_assign)
next
  case (Some w)
  then have "k \<in> fst ` set dp" by (metis map_of_eq_None_iff option.distinct(1))
  then have "insert k (fst ` set dp) = fst ` set dp" by blast
  then show ?thesis using Some by (simp add: record_path_def key_set_assign)
qed

lemma distinct_record_path:
  "distinct (map fst dp) \<Longrightarrow> distinct (map fst (record_path dp k v))"
proof (cases "map_of dp k")
  case None
  assume d: "distinct (map fst dp)"
  from None have "k \<notin> fst ` set dp" by (simp add: map_of_eq_None_iff)
  then show ?thesis using None d by (simp add: record_path_def keys_assign)
next
  case (Some w)
  assume d: "distinct (map fst dp)"
  from Some have "k \<in> fst ` set dp" by (metis map_of_eq_None_iff option.distinct(1))
  then show ?thesis using Some d by (simp add: record_path_def keys_assign)
qed

lemma map_of_record_path:
  "map_of (record_path dp k v) =
     (case map_of dp k of
        None \<Rightarrow> (map_of dp)(k \<mapsto> v)
      | Some w \<Rightarrow> if \<not> truthy w \<or> js_less w v then (map_of dp)(k \<mapsto> v) else map_of dp)"
  by (simp add: record_path_def map_of_assign split: option.splits)

lemma distinct_paths_loop_foldl:
  assumes "\<forall>t\<in>set xs. generalize_trace u cm n t = Inr (g t, Num (c t))"
  shows "distinct_paths_loop u cm n xs dp =
           Inr (foldl (\<lambda>dp t. record_path dp (g t) (Num (c t))) dp xs)"
  using assms by (induction xs arbitrary: dp) (simp_all add: bind_err_def)

lemma foldl_record_path:
  assumes "\<forall>t\<in>set xs. 0 < c t"
  shows "distinct (map fst (foldl (\<lambda>dp t. record_path dp (g t) (Num (c t))) [] xs))
       \<and> (\<forall>k. map_of (foldl (\<lambda>dp t. record_path dp (g t) (Num (c t))) [] xs) k =
              (if \<exists>t\<in>set xs. g t = k
               then Some (Num (Max (set (map c (filter (\<lambda>t. g t = k) xs)))))
               else None))"
  using assms
proof (induction xs rule: rev_induct)
  case Nil
  then show ?case by simp
next
  case (snoc t xs)
  let ?step = "\<lambda>dp t. record_path dp (g t) (Num (c t))"
  let ?dp = "foldl ?step [] xs"
  have pos: "\<forall>t\<in>set xs. 0 < c t" and ct: "0 < c t" using snoc.prems by auto
  from snoc.IH [OF pos]
  have dist: "distinct (map fst ?dp)"
    and look: "\<And>k. map_of ?dp k =
              (if \<exists>t\<in>set xs. g t = k
               then Some (Num (Max (set (map c (filter (\<lambda>t. g t = k) xs)))))
               else None)"
    by auto
  have fold: "foldl ?step [] (xs @ [t]) = record_path ?dp (g t) (Num (c t))" by simp
  have "map_of (record_path ?dp (g t) (Num (c t))) k =
              (if \<exists>t'\<in>set (xs @ [t]). g t' = k
               then Some (Num (Max (set (map c (filter (\<lambda>t'. g t' = k) (xs @ [t]))))))
               else None)" for k
  proof (cases "k = g t")
    case False
    then show ?thesis using look [of k]
      by (auto simp: map_of_record_path split: option.splits)
  next
    case True
    show ?thesis
    proof (cases "\<exists>t'\<in>set xs. g t' = g t")
      case False
      then have "filter (\<lambda>t'. g t' = g t) xs = []" by (auto simp: filter_empty_conv)
      then show ?thesis using True False look [of "g t"]
        by (simp add: map_of_record_path)
    next
      case ex: True
      let ?S = "set (map c (filter (\<lambda>t'. g t' = g t) xs))"
      have ne: "?S \<noteq> {}" using ex by (auto simp: filter_empty_conv)
      have old: "map_of ?dp (g t) = Some (Num (Max ?S))" using look [of "g t"] ex by simp
      have "Max ?S \<in> ?S" using ne by (intro Max_in) auto
      then have mpos: "0 < Max ?S" using pos by auto
      have "Max (set (map c (filter (\<lambda>t'. g t' = g t) (xs @ [t])))) = max (c t) (Max ?S)"
        using ne by simp
      then show ?thesis using True old mpos
        by (auto simp: map_of_record_path max_def)
    qed
  qed
  then show ?case using fold distinct_record_path [OF dist] by simp
qed

lemma set_insert_by: "set (insert_by cmp x ys) = insert x (set ys)"
  by (induction ys) auto

lemma set_js_sort: "set (js_sort cmp xs) = set xs"
  by (induction xs) (simp_all add: js_sort_def set_insert_by)

lemma distinct_insert_by: "distinct (insert_by cmp x ys) = (x \<notin> set ys \<and> distinct ys)"
  by (induction ys) (auto simp: set_insert_by)

lemma distinct_js_sort: "distinct xs \<Longrightarrow> distinct (js_sort cmp xs)"
  by (induction xs) (simp_all add: js_sort_def distinct_insert_by set_js_sort [unfolded js_sort_def])

lemma sorted_insert_by:
  fixes h :: "'a \<Rightarrow> rat"
  assumes "\<forall>y\<in>set ys. (cmp x y \<le> 0) = (h y \<le> h x)"
      and "sorted_wrt (\<lambda>a b. h b \<le> h a) ys"
  shows "sorted_wrt (\<lambda>a b. h b \<le> h a) (insert_by cmp x ys)"
  using assms
proof (induction ys)
  case Nil
  then show ?case by simp
next
  case (Cons y ys)
  show ?case
  proof (cases "cmp x y \<le> 0")
    case True
    then have "h y \<le> h x" using Cons.prems(1) by simp
    moreover have "\<forall>z\<in>set ys. h z \<le> h y" using Cons.prems(2) by simp
    ultimately have "\<forall>z\<in>set (y # ys). h z \<le> h x" by auto
    then show ?thesis using True Cons.prems(2) by simp
  next
    case False
    then have "h x \<le> h y" using Cons.prems(1) by auto
    moreover have "sorted_wrt (\<lambda>a b. h b \<le> h a) (insert_by cmp x ys)"
      using Cons.IH Cons.prems by simp
    ultimately show ?thesis using False Cons.prems(2) by (auto simp: set_insert_by)
  qed
qed

lemma sorted_js_sort:
  fixes h :: "'a \<Rightarrow> rat"
  assumes "\<forall>x\<in>set xs. \<forall>y\<in>set xs. (cmp x y \<le> 0) = (h y \<le> h x)"
  shows "sorted_wrt (\<lambda>a b. h b \<le> h a) (js_sort cmp xs)"
  using assms
proof (induction xs)
  case Nil
  then show ?case by (simp add: js_sort_def)
next
  case (Cons x xs)
  have "sorted_wrt (\<lambda>a b. h b \<le> h a) (js_sort cmp xs)" using Cons by simp
  moreover have "\<forall>y\<in>set (js_sort cmp xs). (cmp x y \<le> 0) = (h y \<le> h x)"
    using Cons.prems by (simp add: set_js_sort)
  ultimately show ?case using sorted_insert_by [of "js_sort cmp xs" cmp x h]
    by (simp add: js_sort_def)
qed

lemma average_fraction_positive:
  assumes "t \<in> set traces" and "getPathTokens u (tr_path t) \<noteq> []"
  shows "0 < average_fraction u traces t"
proof -
  have pos: "\<And>i tok. 0 \<le> occurrenceFraction u traces i tok"
    by (simp add: occurrenceFraction_def)
  have nonneg: "0 \<le> fraction_sum (occurrenceFraction u traces) ts i" for ts i
    by (induction ts arbitrary: i) (simp_all add: pos)
  obtain a rest where ts: "getPathTokens u (tr_path t) = a # rest"
    using assms(2) by (cases "getPathTokens u (tr_path t)") auto
  have "0 < occurrences u traces 0 (getPathTokens u (tr_path t) ! 0)"
    using occurrences_own [OF assms(1), of 0 u] assms(2) by simp
  moreover have "0 < length traces" using assms(1) by (auto simp: length_pos_if_in_set)
  ultimately have "0 < occurrenceFraction u traces 0 a"
    using ts by (simp add: occurrenceFraction_def)
  then have "0 < fraction_sum (occurrenceFraction u traces) (getPathTokens u (tr_path t)) 0"
    using nonneg [of rest 1] ts by (simp add: add_pos_nonneg)
  then show ?thesis using assms(2) by (simp add: average_fraction_def)
qed

text \<open>
  Where every trace of the sample has at least one token and no token names an
  inherited member, \<^verbatim>\<open>distinctPaths\<close> holds each template of the sample once, with
  the maximum of the average occurrence fractions of the traces that generalize
  to it, and the result of \<^verbatim>\<open>getTopSuggestedPaths\<close> is the first 100 entries of
  the list of all templates in descending order of that confidence.
\<close>

lemma ranked_plain_tokens:
  assumes "find_traces db endpointId = traces"
      and "\<forall>t\<in>set traces. getPathTokens u (tr_path t) \<noteq> []"
      and "\<forall>t\<in>set traces. \<forall>token\<in>set (getPathTokens u (tr_path t)). \<not> inherited token"
  shows "\<exists>distinctPaths ranked out.
           getDistinctPaths u (getCounterMap u traces) traces (length traces) = Inr distinctPaths
         \<and> distinct (map fst distinctPaths)
         \<and> fst ` set distinctPaths = template u traces ` set traces
         \<and> (\<forall>kv\<in>set distinctPaths. snd kv = Num (template_confidence u traces (fst kv)))
         \<and> getTopSuggestedPaths u db endpointId = Inr out
         \<and> out = take 100 ranked
         \<and> distinct ranked \<and> set ranked = template u traces ` set traces
         \<and> sorted_wrt (\<lambda>a b. template_confidence u traces b \<le> template_confidence u traces a) ranked
         \<and> sorted_wrt (\<lambda>a b. template_confidence u traces b \<le> template_confidence u traces a) out
         \<and> length out \<le> 100"
proof -
  let ?g = "template u traces"
  let ?c = "average_fraction u traces"
  let ?h = "template_confidence u traces"
  let ?dp = "foldl (\<lambda>dp t. record_path dp (?g t) (Num (?c t))) [] traces"
  let ?cmp = "\<lambda>a b. js_sub_sign (lookup_number ?dp b) (lookup_number ?dp a)"
  let ?ranked = "js_sort ?cmp (map fst ?dp)"
  have gen: "\<forall>t\<in>set traces.
               generalize_trace u (getCounterMap u traces) (length traces) t = Inr (?g t, Num (?c t))"
  proof
    fix t assume t: "t \<in> set traces"
    then have "confidence u traces t = Num (?c t)"
      using confidence_average [of u t traces] assms(2,3) by blast
    then show "generalize_trace u (getCounterMap u traces) (length traces) t =
                 Inr (?g t, Num (?c t))"
      using generalize_trace_sample [OF t, of u] by simp
  qed
  have dp: "getDistinctPaths u (getCounterMap u traces) traces (length traces) = Inr ?dp"
    unfolding getDistinctPaths_def by (rule distinct_paths_loop_foldl [OF gen])
  have pos: "\<forall>t\<in>set traces. 0 < ?c t"
    using average_fraction_positive assms(2) by blast
  from foldl_record_path [OF pos, of ?g]
  have dist: "distinct (map fst ?dp)"
    and look: "\<And>k. map_of ?dp k =
                 (if \<exists>t\<in>set traces. ?g t = k then Some (Num (?h k)) else None)"
    by (auto simp: template_confidence_def)
  have keys: "fst ` set ?dp = ?g ` set traces"
  proof -
    have "k \<in> fst ` set ?dp \<longleftrightarrow> k \<in> ?g ` set traces" for k
    proof -
      have "k \<in> fst ` set ?dp \<longleftrightarrow> map_of ?dp k \<noteq> None"
        by (simp add: map_of_eq_None_iff)
      also have "\<dots> \<longleftrightarrow> (\<exists>t\<in>set traces. ?g t = k)"
        by (simp add: look [of k])
      also have "\<dots> \<longleftrightarrow> k \<in> ?g ` set traces" by blast
      finally show ?thesis .
    qed
    then show ?thesis by blast
  qed
  have vals: "\<forall>kv\<in>set ?dp. snd kv = Num (?h (fst kv))"
  proof
    fix kv assume "kv \<in> set ?dp"
    then have "(fst kv, snd kv) \<in> set ?dp" by simp
    with dist have "map_of ?dp (fst kv) = Some (snd kv)" by (rule map_of_is_SomeI)
    then show "snd kv = Num (?h (fst kv))" using look [of "fst kv"] by (simp split: if_splits)
  qed
  have num: "\<forall>k\<in>set (map fst ?dp). lookup_number ?dp k = Num (?h k)"
    using look keys by (auto simp: lookup_number_def)
  then have cmp: "\<forall>x\<in>set (map fst ?dp). \<forall>y\<in>set (map fst ?dp). (?cmp x y \<le> 0) = (?h y \<le> ?h x)"
    by auto
  have sorted: "sorted_wrt (\<lambda>a b. ?h b \<le> ?h a) ?ranked"
    by (rule sorted_js_sort [OF cmp])
  have out: "getTopSuggestedPaths u db endpointId = Inr (take 100 ?ranked)"
    using assms(1) dp by (simp add: getTopSuggestedPaths_def Let_def bind_err_def)
  have "distinct ?ranked" using dist by (rule distinct_js_sort)
  moreover have "set ?ranked = ?g ` set traces" using keys by (simp add: set_js_sort)
  moreover have "sorted_wrt (\<lambda>a b. ?h b \<le> ?h a) (take 100 ?ranked)"
    using sorted by (rule sorted_wrt_take)
  moreover have "length (take 100 ?ranked) \<le> 100" by simp
  ultimately show ?thesis using dp dist keys vals out sorted by blast
qed

text \<open>
  Claim C6 fails on the sample \<^verbatim>\<open>/x\<close>, \<^verbatim>\<open>/constructor\<close>, \<^verbatim>\<open>/y\<close>, \<^verbatim>\<open>/y\<close>. The template
  \<^verbatim>\<open>/constructor\<close> has the average occurrence fraction 1/4, but its token names an
  inherited member and the confidence recorded for it is \<^verbatim>\<open>NaN\<close>. The comparator
  answers 0 wherever that template is compared, and the result lists \<^verbatim>\<open>/x\<close>, of
  confidence 1/4, before \<^verbatim>\<open>/y\<close>, of confidence 1/2: it is not in descending order
  of confidence.
\<close>

theorem inherited_token_ranking:
  "find_traces (db_of [] [] sample_ranked) ''e1'' = sample_ranked \<and>
   getDistinctPaths utils0 (getCounterMap utils0 sample_ranked) sample_ranked
       (length sample_ranked) =
     Inr [(''/x'', Num (1 / 4)), (''/constructor'', NaN), (''/y'', Num (1 / 2))] \<and>
   template utils0 sample_ranked (sample_trace ''/constructor'') = ''/constructor'' \<and>
   average_fraction utils0 sample_ranked (sample_trace ''/constructor'') = 1 / 4 \<and>
   getTopSuggestedPaths utils0 (db_of [] [] sample_ranked) ''e1'' =
     Inr [''/x'', ''/constructor'', ''/y'']"
  by code_simp

end
